theory Spec2Isabelle
  imports Main "HOL-Library.Char_ord" "HOL-Library.List_Lexorder" "HOL-Library.Product_Lexorder"
    "HOL-Library.Sublist"
begin

section \<open>Diagonal Sudoku solver: the embedding of solution.py\<close>

subsection \<open>Constants and topology\<close>

text \<open>
  A box is named by a two-character Python string such as \<^verbatim>\<open>'A1'\<close>; a candidate set is
  a Python string of digit characters. Both are values of type \<open>string\<close>.
\<close>

type_synonym cell = string

definition letters :: string where
  "letters = ''ABCDEFGHI''"

definition digits :: string where
  "digits = ''123456789''"

definition rows :: string where
  "rows = letters"

definition cols :: string where
  "cols = digits"

text \<open>\<^verbatim>\<open>cross(A, B) = [a + b for a in A for b in B]\<close>\<close>

definition cross :: "string \<Rightarrow> string \<Rightarrow> cell list" where
  "cross A B = concat (map (\<lambda>a. map (\<lambda>b. [a, b]) B) A)"

definition boxes :: "cell list" where
  "boxes = cross rows cols"

definition row_units :: "cell list list" where
  "row_units = map (\<lambda>r. cross [r] cols) rows"

definition col_units :: "cell list list" where
  "col_units = map (\<lambda>c. cross rows [c]) cols"

definition square_units :: "cell list list" where
  "square_units =
     concat (map (\<lambda>row. map (\<lambda>col. cross row col) [''123'', ''456'', ''789''])
       [''ABC'', ''DEF'', ''GHI''])"

definition diag_units :: "cell list list" where
  "diag_units =
     [map (\<lambda>(r, c). [r, c]) (zip rows cols), map (\<lambda>(r, c). [r, c]) (zip (rev rows) cols)]"

definition diag_boxes :: "cell set" where
  "diag_boxes = set (concat diag_units)"

definition unitlist :: "cell list list" where
  "unitlist = row_units @ col_units @ square_units @ diag_units"

text \<open>
  \<^verbatim>\<open>units\<close> and \<^verbatim>\<open>peers\<close> are dicts keyed by the boxes; they are read at boxes only.
  \<^verbatim>\<open>peers[box]\<close> is a Python set. Where the source iterates over it, the embedding walks
  the duplicate-free list \<open>peers_list\<close>, which fixes one of the iteration orders that the
  language leaves open.
\<close>

definition units :: "cell \<Rightarrow> cell list list" where
  "units box = filter (\<lambda>unit. box \<in> set unit) unitlist"

definition peers :: "cell \<Rightarrow> cell set" where
  "peers box = set (concat (units box)) - {box}"

definition peers_list :: "cell \<Rightarrow> cell list" where
  "peers_list box = remdups (removeAll box (concat (units box)))"

subsection \<open>Boards, the assignment record and errors\<close>

text \<open>
  A board is a Python dict from box to candidate string. \<^verbatim>\<open>grid_values\<close> builds it as
  \<^verbatim>\<open>dict(zip(boxes, numbers))\<close> from 81 entries, and no function of the module adds or
  deletes a key: the key set of every board is \<open>boxes\<close>, in that insertion order. A board
  is therefore represented by its lookup function, \<^verbatim>\<open>values.keys()\<close> is \<open>boxes\<close>, and only
  what the function returns at a box is meaningful. \<^verbatim>\<open>values[box] = v\<close> is the function
  update, and \<^verbatim>\<open>values.copy()\<close> is the function itself.

  The module-level list \<^verbatim>\<open>assignments\<close> is global mutable state; it is threaded through
  every operation as the second component of a \<open>state\<close>.
\<close>

type_synonym board = "cell \<Rightarrow> string"

type_synonym state = "board \<times> board list"

datatype error = AssertionError | ValueError

text \<open>
  What \<^verbatim>\<open>search\<close> returns: \<^verbatim>\<open>False\<close> (contradiction), \<^verbatim>\<open>None\<close> (the loop over the candidates
  of the chosen box ran out, and the function ends without a \<^verbatim>\<open>return\<close>) or a board.
\<close>

datatype result = PyFalse | PyNone | Solved board

text \<open>Python truthiness: a dict with 81 keys is true, \<^verbatim>\<open>False\<close> and \<^verbatim>\<open>None\<close> are not.\<close>

fun truthy :: "result \<Rightarrow> bool" where
  "truthy PyFalse = False"
| "truthy PyNone = False"
| "truthy (Solved b) = True"

subsection \<open>String replacement\<close>

text \<open>
  \<^verbatim>\<open>s.replace(old, '')\<close>: every non-overlapping occurrence of \<open>old\<close> is deleted, scanning
  from the left; with an empty \<open>old\<close> the string comes back unchanged.
\<close>

function delete_all :: "string \<Rightarrow> string \<Rightarrow> string" where
  "delete_all old s =
     (if s = [] \<or> old = [] then s
      else if prefix old s then delete_all old (drop (length old) s)
      else hd s # delete_all old (tl s))"
  by pat_completeness auto
termination
  by (relation "measure (\<lambda>(old, s). length s)") auto

declare delete_all.simps [simp del]

subsection \<open>The assignment primitive\<close>

definition assign_value :: "state \<Rightarrow> cell \<Rightarrow> string \<Rightarrow> state" where
  "assign_value s box v =
     (let values = fst s; assignments = snd s in
      if values box = v then (values, assignments)
      else
        let values' = values(box := v) in
        if length v = 1 then (values', assignments @ [values'])
        else (values', assignments))"

subsection \<open>Board construction\<close>

definition grid_values :: "string \<Rightarrow> error + board" where
  "grid_values grid =
     (if length grid \<noteq> 81 then Inl AssertionError
      else if \<not> list_all (\<lambda>c. c \<in> set (digits @ ''.'')) grid then Inl AssertionError
      else
        let numbers = map (\<lambda>c. if c = CHR ''.'' then digits else [c]) grid in
        Inr (\<lambda>box. case map_of (zip boxes numbers) box of Some v \<Rightarrow> v | None \<Rightarrow> []))"

subsection \<open>The three propagators\<close>

definition eliminate_peer :: "string \<Rightarrow> cell \<Rightarrow> state \<Rightarrow> state" where
  "eliminate_peer digit peer s = assign_value s peer (delete_all digit (fst s peer))"

definition eliminate_box :: "cell \<Rightarrow> state \<Rightarrow> state" where
  "eliminate_box box s = (let digit = fst s box in fold (eliminate_peer digit) (peers_list box) s)"

definition eliminate :: "state \<Rightarrow> state" where
  "eliminate s = fold eliminate_box (filter (\<lambda>box. length (fst s box) = 1) boxes) s"

definition only_choice_digit :: "cell list \<Rightarrow> char \<Rightarrow> state \<Rightarrow> state" where
  "only_choice_digit unit digit s =
     (let placements = filter (\<lambda>box. digit \<in> set (fst s box)) unit in
      if length placements = 1 then assign_value s (hd placements) [digit] else s)"

definition only_choice :: "state \<Rightarrow> state" where
  "only_choice s = fold (\<lambda>unit. fold (only_choice_digit unit) digits) unitlist s"

text \<open>A loop whose body can raise: the first error ends it.\<close>

fun fold_err :: "('a \<Rightarrow> 's \<Rightarrow> error + 's) \<Rightarrow> 'a list \<Rightarrow> 's \<Rightarrow> error + 's" where
  "fold_err f [] s = Inr s"
| "fold_err f (x # xs) s = (case f x s of Inl e \<Rightarrow> Inl e | Inr s' \<Rightarrow> fold_err f xs s')"

definition twins_of :: "board \<Rightarrow> cell list \<Rightarrow> (cell \<times> cell) list" where
  "twins_of values unit =
     concat (map (\<lambda>b1. map (\<lambda>b2. (b1, b2))
       (filter (\<lambda>b2. length (values b1) = length (values b2) \<and> length (values b2) = 2 \<and>
                      values b1 = values b2 \<and> b1 < b2) unit)) unit)"

text \<open>
  \<^verbatim>\<open>peers[box1] & peers[box2] - {box1} - {box2}\<close>: in Python \<^verbatim>\<open>-\<close> binds tighter than \<^verbatim>\<open>&\<close>.
\<close>

definition shared_peers :: "cell \<Rightarrow> cell \<Rightarrow> cell list" where
  "shared_peers box1 box2 =
     filter (\<lambda>p. p \<in> peers box2 - {box1} - {box2}) (peers_list box1)"

definition twin_peer :: "char \<Rightarrow> char \<Rightarrow> cell \<Rightarrow> state \<Rightarrow> state" where
  "twin_peer val1 val2 shared_peer s =
     assign_value s shared_peer (delete_all [val2] (delete_all [val1] (fst s shared_peer)))"

text \<open>
  The body of the loop over the twins of one unit. \<^verbatim>\<open>val1, val2 = values[box1]\<close> raises
  ValueError unless the string has exactly two characters.
\<close>

definition twin_step :: "cell \<times> cell \<Rightarrow> state \<Rightarrow> error + state" where
  "twin_step twin s =
     (let box1 = fst twin; box2 = snd twin in
      if length (fst s box1) < 2 then Inr s
      else
        (case fst s box1 of
           [val1, val2] \<Rightarrow> Inr (fold (twin_peer val1 val2) (shared_peers box1 box2) s)
         | _ \<Rightarrow> Inl ValueError))"

definition naked_twins_unit :: "cell list \<Rightarrow> state \<Rightarrow> error + state" where
  "naked_twins_unit unit s = fold_err twin_step (twins_of (fst s) unit) s"

definition naked_twins :: "state \<Rightarrow> error + state" where
  "naked_twins s = fold_err naked_twins_unit unitlist s"

subsection \<open>Candidate strings only shrink\<close>

text \<open>
  Every write of the three propagators replaces a candidate string by a subsequence of
  itself: \<open>le_board v' v\<close> says that board \<open>v'\<close> arises from \<open>v\<close> by deleting characters.
\<close>

lemma delete_all_Nil [simp]: "delete_all old [] = []"
  by (simp add: delete_all.simps)

lemma delete_all_empty_old [simp]: "delete_all [] s = s"
  by (simp add: delete_all.simps)

lemma delete_all_single: "delete_all [c] s = filter (\<lambda>x. x \<noteq> c) s"
proof (induction s)
  case Nil
  then show ?case by simp
next
  case (Cons a s)
  then show ?case by (subst delete_all.simps) auto
qed

lemma subseq_delete_all: "subseq (delete_all old s) s"
proof (induction old s rule: delete_all.induct)
  case (1 old s)
  show ?case
  proof (cases "s = [] \<or> old = []")
    case True
    then show ?thesis by (subst delete_all.simps) simp
  next
    case False
    show ?thesis
    proof (cases "prefix old s")
      case True
      have "subseq (delete_all old (drop (length old) s)) (drop (length old) s)"
        using 1(1) False True by simp
      moreover have "subseq (drop (length old) s) s"
        by (metis append_take_drop_id subseq_drop_many subseq_order.order_refl)
      ultimately have "subseq (delete_all old (drop (length old) s)) s"
        using subseq_order.order_trans by blast
      then show ?thesis using False True by (subst delete_all.simps) simp
    next
      case nopre: False
      have "subseq (delete_all old (tl s)) (tl s)"
        using 1(2) False nopre by simp
      then have "subseq (hd s # delete_all old (tl s)) (hd s # tl s)" by simp
      moreover have "hd s # tl s = s" using False by simp
      ultimately have "subseq (hd s # delete_all old (tl s)) s" by simp
      then show ?thesis using False nopre by (subst delete_all.simps) simp
    qed
  qed
qed

definition le_board :: "board \<Rightarrow> board \<Rightarrow> bool" where
  "le_board v' v = (\<forall>b. subseq (v' b) (v b))"

lemma le_board_refl [simp]: "le_board v v"
  by (simp add: le_board_def)

lemma le_board_trans: "le_board v'' v' \<Longrightarrow> le_board v' v \<Longrightarrow> le_board v'' v"
  unfolding le_board_def using subseq_order.order_trans by blast

lemma le_board_upd: "subseq x (v b) \<Longrightarrow> le_board (v(b := x)) v"
  by (simp add: le_board_def)

lemma fst_assign_value [simp]: "fst (assign_value s box v) = (fst s)(box := v)"
  by (auto simp: assign_value_def Let_def)

lemma prefix_assign_value: "prefix (snd s) (snd (assign_value s box v))"
  by (auto simp: assign_value_def Let_def)

lemma fold_le_board:
  assumes "\<And>x s. x \<in> set xs \<Longrightarrow> le_board (fst (f x s)) (fst s)"
  shows "le_board (fst (fold f xs s)) (fst s)"
  using assms
proof (induction xs arbitrary: s)
  case Nil
  then show ?case by simp
next
  case (Cons a xs)
  have "le_board (fst (fold f xs (f a s))) (fst (f a s))" using Cons by simp
  moreover have "le_board (fst (f a s)) (fst s)" using Cons(2) by simp
  ultimately show ?case using le_board_trans by auto
qed

lemma fold_err_le_board:
  assumes "\<And>x s s'. x \<in> set xs \<Longrightarrow> f x s = Inr s' \<Longrightarrow> le_board (fst s') (fst s)"
    and "fold_err f xs s = Inr s'"
  shows "le_board (fst s') (fst s)"
  using assms
proof (induction xs arbitrary: s)
  case Nil
  then show ?case by simp
next
  case (Cons a xs)
  from Cons.prems(2) obtain s1 where s1: "f a s = Inr s1" and r: "fold_err f xs s1 = Inr s'"
    by (auto split: sum.splits)
  have "le_board (fst s') (fst s1)"
  proof (rule Cons.IH[OF _ r])
    fix x t t' assume "x \<in> set xs" "f x t = Inr t'"
    then show "le_board (fst t') (fst t)" using Cons.prems(1)[of x t t'] by simp
  qed
  moreover have "le_board (fst s1) (fst s)" using Cons.prems(1)[of a s s1] s1 by simp
  ultimately show ?case using le_board_trans by blast
qed

lemma eliminate_peer_le: "le_board (fst (eliminate_peer digit peer s)) (fst s)"
  by (simp add: eliminate_peer_def le_board_upd subseq_delete_all)

lemma eliminate_box_le: "le_board (fst (eliminate_box box s)) (fst s)"
  unfolding eliminate_box_def Let_def by (rule fold_le_board) (rule eliminate_peer_le)

lemma eliminate_le: "le_board (fst (eliminate s)) (fst s)"
  unfolding eliminate_def by (rule fold_le_board) (rule eliminate_box_le)

lemma only_choice_digit_le: "le_board (fst (only_choice_digit unit digit s)) (fst s)"
proof (cases "length (filter (\<lambda>box. digit \<in> set (fst s box)) unit) = 1")
  case True
  then obtain b where b: "filter (\<lambda>box. digit \<in> set (fst s box)) unit = [b]"
    by (cases "filter (\<lambda>box. digit \<in> set (fst s box)) unit") auto
  then have "b \<in> set (filter (\<lambda>box. digit \<in> set (fst s box)) unit)" by simp
  then have "digit \<in> set (fst s b)" by simp
  then have "subseq [digit] (fst s b)" by (simp add: subseq_singleton_left)
  then show ?thesis using b by (simp add: only_choice_digit_def le_board_upd)
next
  case False
  then show ?thesis by (simp add: only_choice_digit_def)
qed

lemma only_choice_le: "le_board (fst (only_choice s)) (fst s)"
  unfolding only_choice_def
  by (rule fold_le_board, rule fold_le_board, rule only_choice_digit_le)

lemma twin_peer_le: "le_board (fst (twin_peer a b p s)) (fst s)"
proof -
  have "subseq (delete_all [b] (delete_all [a] (fst s p))) (fst s p)"
    using subseq_delete_all subseq_order.order_trans by blast
  then show ?thesis by (simp add: twin_peer_def le_board_upd)
qed

lemma twin_step_le: "twin_step twin s = Inr s' \<Longrightarrow> le_board (fst s') (fst s)"
  unfolding twin_step_def Let_def
  by (auto split: if_splits list.splits intro!: fold_le_board twin_peer_le)

lemma naked_twins_unit_le: "naked_twins_unit unit s = Inr s' \<Longrightarrow> le_board (fst s') (fst s)"
  unfolding naked_twins_unit_def
  by (erule fold_err_le_board[rotated]) (rule twin_step_le)

lemma naked_twins_le: "naked_twins s = Inr s' \<Longrightarrow> le_board (fst s') (fst s)"
  unfolding naked_twins_def
  by (erule fold_err_le_board[rotated]) (rule naked_twins_unit_le)

subsection \<open>The fixed-point reducer\<close>

definition n_solved :: "board \<Rightarrow> nat" where
  "n_solved values = length (filter (\<lambda>box. length (values box) = 1) boxes)"

definition n_empty :: "board \<Rightarrow> nat" where
  "n_empty values = length (filter (\<lambda>box. length (values box) = 0) boxes)"

lemma le_board_length: "le_board v' v \<Longrightarrow> length (v' b) \<le> length (v b)"
  unfolding le_board_def using list_emb_length by blast

lemma filter_length_mono:
  assumes "\<And>x. x \<in> set xs \<Longrightarrow> P x \<Longrightarrow> Q x"
  shows "length (filter P xs) \<le> length (filter Q xs)"
  using assms by (induction xs) auto

lemma n_solved_le_boxes: "n_solved v \<le> length boxes"
  by (simp add: n_solved_def)

lemma n_solved_mono:
  assumes le: "le_board v' v" and ne: "n_empty v' = 0"
  shows "n_solved v \<le> n_solved v'"
  unfolding n_solved_def
proof (rule filter_length_mono)
  fix x assume x: "x \<in> set boxes" and l: "length (v x) = 1"
  have "length (v' x) \<le> 1" using le_board_length[OF le, of x] l by simp
  moreover have "length (v' x) \<noteq> 0"
  proof
    assume "length (v' x) = 0"
    then have "x \<in> set (filter (\<lambda>box. length (v' box) = 0) boxes)" using x by simp
    then have "filter (\<lambda>box. length (v' box) = 0) boxes \<noteq> []" by (metis empty_iff empty_set)
    then show False using ne by (simp add: n_empty_def)
  qed
  ultimately show "length (v' x) = 1" by (cases "v' x") auto
qed

lemma pass_le:
  assumes "naked_twins (only_choice (eliminate s)) = Inr s'"
  shows "le_board (fst s') (fst s)"
  using naked_twins_le[OF assms] only_choice_le eliminate_le le_board_trans by blast

function reduce_puzzle :: "state \<Rightarrow> error + (board option \<times> board list)" where
  "reduce_puzzle s =
     (case naked_twins (only_choice (eliminate s)) of
        Inl e \<Rightarrow> Inl e
      | Inr s' \<Rightarrow>
          if n_empty (fst s') \<noteq> 0 then Inr (None, snd s')
          else if n_solved (fst s') = n_solved (fst s) then Inr (Some (fst s'), snd s')
          else reduce_puzzle s')"
  by pat_completeness auto
termination
proof (relation "measure (\<lambda>s. length boxes - n_solved (fst s))")
  show "wf (measure (\<lambda>s. length boxes - n_solved (fst s)))" by simp
next
  fix s :: state and s' :: state
  assume p: "naked_twins (only_choice (eliminate s)) = Inr s'"
    and ne: "\<not> n_empty (fst s') \<noteq> 0" and ch: "n_solved (fst s') \<noteq> n_solved (fst s)"
  have "n_solved (fst s) \<le> n_solved (fst s')"
    using n_solved_mono[OF pass_le[OF p]] ne by simp
  with ch have "n_solved (fst s) < n_solved (fst s')" by simp
  moreover have "n_solved (fst s') \<le> length boxes" by (rule n_solved_le_boxes)
  ultimately show "(s', s) \<in> measure (\<lambda>s. length boxes - n_solved (fst s))" by simp
qed

declare reduce_puzzle.simps [simp del]

definition all_fixed :: "board \<Rightarrow> bool" where
  "all_fixed values = list_all (\<lambda>b. length (values b) = 1) boxes"

definition min_box :: "board \<Rightarrow> error + (nat \<times> cell)" where
  "min_box values =
     (case map (\<lambda>b. (length (values b), b)) (filter (\<lambda>b. length (values b) > 1) boxes) of
        [] \<Rightarrow> Inl ValueError
      | x # xs \<Rightarrow> Inr (fold min xs x))"

definition total :: "board \<Rightarrow> nat" where
  "total values = sum_list (map (\<lambda>b. length (values b)) boxes)"

subsection \<open>Search and the top-level solve\<close>

lemma reduce_puzzle_le:
  "reduce_puzzle s = Inr (Some v, log) \<Longrightarrow> le_board v (fst s)"
proof (induction s rule: reduce_puzzle.induct)
  case (1 s)
  from "1.prems" obtain s' where p: "naked_twins (only_choice (eliminate s)) = Inr s'"
    by (subst (asm) reduce_puzzle.simps) (auto split: sum.splits)
  have le: "le_board (fst s') (fst s)" by (rule pass_le[OF p])
  show ?case
  proof (cases "n_empty (fst s') \<noteq> 0")
    case True
    with "1.prems" p show ?thesis by (subst (asm) reduce_puzzle.simps) simp
  next
    case ne: False
    show ?thesis
    proof (cases "n_solved (fst s') = n_solved (fst s)")
      case True
      with "1.prems" p ne have "v = fst s'" by (subst (asm) reduce_puzzle.simps) simp
      with le show ?thesis by simp
    next
      case False
      with "1.prems" p ne have "reduce_puzzle s' = Inr (Some v, log)"
        by (subst (asm) reduce_puzzle.simps) simp
      then have "le_board v (fst s')" using "1.IH"[OF p ne False] by simp
      with le show ?thesis using le_board_trans by blast
    qed
  qed
qed

lemma distinct_boxes: "distinct boxes"
  by (simp add: boxes_def cross_def rows_def cols_def letters_def digits_def)

lemma length_boxes: "length boxes = 81"
  by (simp add: boxes_def cross_def rows_def cols_def letters_def digits_def)

lemma sum_list_mono_map:
  assumes "\<And>x. x \<in> set xs \<Longrightarrow> f x \<le> (g x :: nat)"
  shows "sum_list (map f xs) \<le> sum_list (map g xs)"
  using assms by (induction xs) (auto intro: add_mono)

lemma total_mono: "le_board v' v \<Longrightarrow> total v' \<le> total v"
  unfolding total_def by (rule sum_list_mono_map) (rule le_board_length)

lemma sum_list_upd_notin:
  "x \<notin> set xs \<Longrightarrow> sum_list (map (\<lambda>b. length ((f(x := y)) b)) xs) = sum_list (map (\<lambda>b. length (f b)) xs)"
  by (induction xs) auto

lemma sum_list_upd_in:
  "distinct xs \<Longrightarrow> x \<in> set xs \<Longrightarrow>
   sum_list (map (\<lambda>b. length ((f(x := y)) b)) xs) + length (f x) =
   sum_list (map (\<lambda>b. length (f b)) xs) + length y"
proof (induction xs)
  case Nil
  then show ?case by simp
next
  case (Cons a xs)
  show ?case
  proof (cases "a = x")
    case True
    then have "x \<notin> set xs" using Cons.prems by simp
    then have "sum_list (map (\<lambda>b. length ((f(x := y)) b)) xs) = sum_list (map (\<lambda>b. length (f b)) xs)"
      by (rule sum_list_upd_notin)
    then show ?thesis using True by simp
  next
    case False
    then have "x \<in> set xs" using Cons.prems by simp
    then show ?thesis using Cons False by simp
  qed
qed

lemma total_upd_in:
  "box \<in> set boxes \<Longrightarrow> total (v(box := y)) + length (v box) = total v + length y"
  unfolding total_def by (rule sum_list_upd_in[OF distinct_boxes])

lemma total_upd_notin: "box \<notin> set boxes \<Longrightarrow> total (v(box := y)) = total v"
  unfolding total_def by (rule sum_list_upd_notin)

lemma fold_min_in: "fold min xs (x :: 'a :: linorder) \<in> set (x # xs)"
proof (induction xs arbitrary: x)
  case Nil
  then show ?case by simp
next
  case (Cons a xs)
  have "fold min xs (min a x) \<in> set (min a x # xs)" by (rule Cons.IH)
  moreover have "min a x = a \<or> min a x = x" by (simp add: min_def)
  ultimately show ?case by auto
qed

lemma min_box_Inr:
  assumes "min_box v = Inr (n, box)"
  shows "box \<in> set boxes \<and> 1 < length (v box) \<and> n = length (v box)"
proof -
  let ?c = "map (\<lambda>b. (length (v b), b)) (filter (\<lambda>b. length (v b) > 1) boxes)"
  from assms obtain x xs where c: "?c = x # xs" and m: "fold min xs x = (n, box)"
    by (auto simp: min_box_def split: list.splits)
  have "(n, box) \<in> set ?c" using fold_min_in[of xs x] c m by simp
  then show ?thesis by auto
qed

lemma total_branch_lt:
  assumes r: "reduce_puzzle s = Inr (Some values, log)" and m: "min_box values = Inr (n, box)"
  shows "2 * total (values(box := [])) + 3 < 2 * total (fst s)"
proof -
  have le: "total values \<le> total (fst s)"
    using reduce_puzzle_le[OF r] by (rule total_mono)
  from m have b: "box \<in> set boxes" "1 < length (values box)"
    using min_box_Inr[of "values" n box] by simp_all
  have "total (values(box := [])) + length (values box) = total values"
    using total_upd_in[OF b(1), of "values" "[]"] by simp
  with b(2) le show ?thesis by simp
qed

lemma total_fix_le: "total (values(box := [v])) \<le> total (values(box := [])) + 1"
proof (cases "box \<in> set boxes")
  case True
  have "total (values(box := [v])) + length (values box) = total values + 1"
    using total_upd_in[OF True, of "values" "[v]"] by simp
  moreover have "total (values(box := [])) + length (values box) = total values"
    using total_upd_in[OF True, of "values" "[]"] by simp
  ultimately show ?thesis by simp
next
  case False
  then show ?thesis by (simp add: total_upd_notin)
qed

function search :: "state \<Rightarrow> error + (result \<times> board list)"
  and search_branches :: "board \<Rightarrow> cell \<Rightarrow> string \<Rightarrow> board list \<Rightarrow> error + (result \<times> board list)"
  where
  "search s =
     (case reduce_puzzle s of
        Inl e \<Rightarrow> Inl e
      | Inr (None, assignments) \<Rightarrow> Inr (PyFalse, assignments)
      | Inr (Some values, assignments) \<Rightarrow>
          if all_fixed values then Inr (Solved values, assignments)
          else
            (case min_box values of
               Inl e \<Rightarrow> Inl e
             | Inr (n, box) \<Rightarrow> search_branches values box (values box) assignments))"
| "search_branches values box [] assignments = Inr (PyNone, assignments)"
| "search_branches values box (v # vs) assignments =
     (case search (values(box := [v]), assignments) of
        Inl e \<Rightarrow> Inl e
      | Inr (solved, assignments') \<Rightarrow>
          if truthy solved then Inr (solved, assignments')
          else search_branches values box vs assignments')"
  by pat_completeness auto
termination
proof (relation "measures
    [\<lambda>x. case x of Inl s \<Rightarrow> 2 * total (fst s)
               | Inr (values, box, vs, a) \<Rightarrow> 2 * total (values(box := [])) + 3,
     \<lambda>x. case x of Inl s \<Rightarrow> 0 | Inr (values, box, vs, a) \<Rightarrow> length vs]", goal_cases)
  case 1
  show ?case by simp
next
  case (2 s b x y x2 ba xa ya)
  then have "reduce_puzzle s = Inr (Some x2, y)" "min_box x2 = Inr (xa, ya)" by simp_all
  then have "2 * total (x2(ya := [])) + 3 < 2 * total (fst s)" by (rule total_branch_lt)
  then show ?case by simp
next
  case (3 vals box v vs assignments)
  have "total (vals(box := [v])) \<le> total (vals(box := [])) + 1" by (rule total_fix_le)
  then show ?case by simp
next
  case 4
  then show ?case by simp
qed

declare search.simps [simp del]

definition solve :: "string \<Rightarrow> board list \<Rightarrow> error + (result \<times> board list)" where
  "solve grid assignments =
     (case grid_values grid of
        Inl e \<Rightarrow> Inl e
      | Inr values \<Rightarrow>
          (case search (values, assignments) of
             Inl e \<Rightarrow> Inl e
           | Inr (solved, assignments') \<Rightarrow>
               if truthy solved then Inr (solved, assignments') else Inr (PyFalse, assignments')))"

subsection \<open>The topology, evaluated\<close>


lemma unitlist_eval: "unitlist =
  [[''A1'', ''A2'', ''A3'', ''A4'', ''A5'', ''A6'', ''A7'', ''A8'', ''A9''],
   [''B1'', ''B2'', ''B3'', ''B4'', ''B5'', ''B6'', ''B7'', ''B8'', ''B9''],
   [''C1'', ''C2'', ''C3'', ''C4'', ''C5'', ''C6'', ''C7'', ''C8'', ''C9''],
   [''D1'', ''D2'', ''D3'', ''D4'', ''D5'', ''D6'', ''D7'', ''D8'', ''D9''],
   [''E1'', ''E2'', ''E3'', ''E4'', ''E5'', ''E6'', ''E7'', ''E8'', ''E9''],
   [''F1'', ''F2'', ''F3'', ''F4'', ''F5'', ''F6'', ''F7'', ''F8'', ''F9''],
   [''G1'', ''G2'', ''G3'', ''G4'', ''G5'', ''G6'', ''G7'', ''G8'', ''G9''],
   [''H1'', ''H2'', ''H3'', ''H4'', ''H5'', ''H6'', ''H7'', ''H8'', ''H9''],
   [''I1'', ''I2'', ''I3'', ''I4'', ''I5'', ''I6'', ''I7'', ''I8'', ''I9''],
   [''A1'', ''B1'', ''C1'', ''D1'', ''E1'', ''F1'', ''G1'', ''H1'', ''I1''],
   [''A2'', ''B2'', ''C2'', ''D2'', ''E2'', ''F2'', ''G2'', ''H2'', ''I2''],
   [''A3'', ''B3'', ''C3'', ''D3'', ''E3'', ''F3'', ''G3'', ''H3'', ''I3''],
   [''A4'', ''B4'', ''C4'', ''D4'', ''E4'', ''F4'', ''G4'', ''H4'', ''I4''],
   [''A5'', ''B5'', ''C5'', ''D5'', ''E5'', ''F5'', ''G5'', ''H5'', ''I5''],
   [''A6'', ''B6'', ''C6'', ''D6'', ''E6'', ''F6'', ''G6'', ''H6'', ''I6''],
   [''A7'', ''B7'', ''C7'', ''D7'', ''E7'', ''F7'', ''G7'', ''H7'', ''I7''],
   [''A8'', ''B8'', ''C8'', ''D8'', ''E8'', ''F8'', ''G8'', ''H8'', ''I8''],
   [''A9'', ''B9'', ''C9'', ''D9'', ''E9'', ''F9'', ''G9'', ''H9'', ''I9''],
   [''A1'', ''A2'', ''A3'', ''B1'', ''B2'', ''B3'', ''C1'', ''C2'', ''C3''],
   [''A4'', ''A5'', ''A6'', ''B4'', ''B5'', ''B6'', ''C4'', ''C5'', ''C6''],
   [''A7'', ''A8'', ''A9'', ''B7'', ''B8'', ''B9'', ''C7'', ''C8'', ''C9''],
   [''D1'', ''D2'', ''D3'', ''E1'', ''E2'', ''E3'', ''F1'', ''F2'', ''F3''],
   [''D4'', ''D5'', ''D6'', ''E4'', ''E5'', ''E6'', ''F4'', ''F5'', ''F6''],
   [''D7'', ''D8'', ''D9'', ''E7'', ''E8'', ''E9'', ''F7'', ''F8'', ''F9''],
   [''G1'', ''G2'', ''G3'', ''H1'', ''H2'', ''H3'', ''I1'', ''I2'', ''I3''],
   [''G4'', ''G5'', ''G6'', ''H4'', ''H5'', ''H6'', ''I4'', ''I5'', ''I6''],
   [''G7'', ''G8'', ''G9'', ''H7'', ''H8'', ''H9'', ''I7'', ''I8'', ''I9''],
   [''A1'', ''B2'', ''C3'', ''D4'', ''E5'', ''F6'', ''G7'', ''H8'', ''I9''],
   [''I1'', ''H2'', ''G3'', ''F4'', ''E5'', ''D6'', ''C7'', ''B8'', ''A9'']]"
  by (simp add: unitlist_def row_units_def col_units_def square_units_def diag_units_def
      cross_def rows_def cols_def letters_def digits_def)

lemma boxes_eval: "boxes =
  [''A1'', ''A2'', ''A3'', ''A4'', ''A5'', ''A6'', ''A7'', ''A8'', ''A9'',
   ''B1'', ''B2'', ''B3'', ''B4'', ''B5'', ''B6'', ''B7'', ''B8'', ''B9'',
   ''C1'', ''C2'', ''C3'', ''C4'', ''C5'', ''C6'', ''C7'', ''C8'', ''C9'',
   ''D1'', ''D2'', ''D3'', ''D4'', ''D5'', ''D6'', ''D7'', ''D8'', ''D9'',
   ''E1'', ''E2'', ''E3'', ''E4'', ''E5'', ''E6'', ''E7'', ''E8'', ''E9'',
   ''F1'', ''F2'', ''F3'', ''F4'', ''F5'', ''F6'', ''F7'', ''F8'', ''F9'',
   ''G1'', ''G2'', ''G3'', ''G4'', ''G5'', ''G6'', ''G7'', ''G8'', ''G9'',
   ''H1'', ''H2'', ''H3'', ''H4'', ''H5'', ''H6'', ''H7'', ''H8'', ''H9'',
   ''I1'', ''I2'', ''I3'', ''I4'', ''I5'', ''I6'', ''I7'', ''I8'', ''I9'']"
  by (simp add: boxes_def cross_def rows_def cols_def letters_def digits_def)

lemma length_unitlist: "length unitlist = 29"
  by (simp add: unitlist_eval)

lemma units_shape: "\<forall>unit \<in> set unitlist. length unit = 9 \<and> distinct unit \<and> set unit \<subseteq> set boxes"
  by (simp add: unitlist_eval boxes_eval)

lemma units_peers_count:
  "\<forall>box \<in> set boxes.
      length (units box) = (if box = ''E5'' then 5 else if box \<in> diag_boxes then 4 else 3) \<and>
      card (peers box) = (if box = ''E5'' then 32 else if box \<in> diag_boxes then 26 else 20)"
  by code_simp

text \<open>
  C9. The topology has 81 boxes and 29 units of 9 boxes each; the centre box E5 lies in 5
  units and has 32 peers, every other box on a diagonal lies in 4 units and has 26 peers,
  and every box off both diagonals lies in 3 units and has 20 peers.
\<close>

theorem topology_counts:
  "length boxes = 81 \<and> distinct boxes \<and> length unitlist = 29 \<and>
   (\<forall>unit \<in> set unitlist. length unit = 9 \<and> distinct unit \<and> set unit \<subseteq> set boxes) \<and>
   (\<forall>box \<in> set boxes.
      length (units box) = (if box = ''E5'' then 5 else if box \<in> diag_boxes then 4 else 3) \<and>
      card (peers box) = (if box = ''E5'' then 32 else if box \<in> diag_boxes then 26 else 20))"
  by (intro conjI) (rule length_boxes distinct_boxes length_unitlist units_shape units_peers_count)+

theorem topology_counts_witness:
  "''E5'' \<in> set boxes \<and> length (units ''E5'') = 5 \<and> card (peers ''E5'') = 32 \<and>
   ''C7'' \<in> set boxes \<and> ''C7'' \<in> diag_boxes \<and>
   length (units ''C7'') = 4 \<and> card (peers ''C7'') = 26 \<and>
   ''A2'' \<in> set boxes \<and> ''A2'' \<notin> diag_boxes \<and>
   length (units ''A2'') = 3 \<and> card (peers ''A2'') = 20"
proof -
  have m: "''E5'' \<in> set boxes" "''C7'' \<in> set boxes" "''A2'' \<in> set boxes"
    by (simp_all add: boxes_eval)
  have d: "''C7'' \<in> diag_boxes" "''A2'' \<notin> diag_boxes"
    by (simp_all add: diag_boxes_def diag_units_def rows_def cols_def letters_def digits_def)
  have e: "''C7'' \<noteq> ''E5''" "''A2'' \<noteq> ''E5''" by simp_all
  from topology_counts have all: "\<forall>box \<in> set boxes.
      length (units box) = (if box = ''E5'' then 5 else if box \<in> diag_boxes then 4 else 3) \<and>
      card (peers box) = (if box = ''E5'' then 32 else if box \<in> diag_boxes then 26 else 20)"
    by (elim conjE)
  have "length (units ''E5'') = 5 \<and> card (peers ''E5'') = 32"
    using bspec[OF all m(1)] by (simp only: simp_thms if_True)
  moreover have "length (units ''C7'') = 4 \<and> card (peers ''C7'') = 26"
    using bspec[OF all m(2)] by (simp only: e d if_True if_False)
  moreover have "length (units ''A2'') = 3 \<and> card (peers ''A2'') = 20"
    using bspec[OF all m(3)] by (simp only: e d if_True if_False)
  ultimately show ?thesis using m d by (elim conjE) (intro conjI)
qed

subsection \<open>Monotonicity of the propagators\<close>

lemma fold_err_total:
  assumes "\<And>x s. x \<in> set xs \<Longrightarrow> \<exists>s'. f x s = Inr s'"
  shows "\<exists>s'. fold_err f xs s = Inr s'"
  using assms
proof (induction xs arbitrary: s)
  case Nil
  then show ?case by simp
next
  case (Cons a xs)
  from Cons.prems[of a s] obtain s1 where s1: "f a s = Inr s1" by auto
  have "\<exists>s'. fold_err f xs s1 = Inr s'"
  proof (rule Cons.IH)
    fix x t assume "x \<in> set xs"
    then show "\<exists>s'. f x t = Inr s'" using Cons.prems[of x t] by simp
  qed
  with s1 show ?case by simp
qed

lemma twin_step_total:
  assumes "length (fst s (fst twin)) \<le> 2"
  shows "\<exists>s'. twin_step twin s = Inr s'"
proof (cases "length (fst s (fst twin)) < 2")
  case True
  then show ?thesis by (simp add: twin_step_def)
next
  case False
  with assms have "length (fst s (fst twin)) = 2" by simp
  then obtain a b where "fst s (fst twin) = [a, b]"
    by (cases "fst s (fst twin)"; cases "tl (fst s (fst twin))") auto
  then show ?thesis by (simp add: twin_step_def)
qed

lemma twins_total:
  assumes "\<forall>t \<in> set tw. length (fst s (fst t)) \<le> 2"
  shows "\<exists>s'. fold_err twin_step tw s = Inr s'"
  using assms
proof (induction tw arbitrary: s)
  case Nil
  then show ?case by simp
next
  case (Cons t tw)
  from Cons.prems have "length (fst s (fst t)) \<le> 2" by simp
  then obtain s1 where s1: "twin_step t s = Inr s1" using twin_step_total by blast
  have le: "le_board (fst s1) (fst s)" by (rule twin_step_le[OF s1])
  have "\<forall>u \<in> set tw. length (fst s1 (fst u)) \<le> 2"
  proof
    fix u assume "u \<in> set tw"
    then have "length (fst s (fst u)) \<le> 2" using Cons.prems by simp
    moreover have "length (fst s1 (fst u)) \<le> length (fst s (fst u))"
      by (rule le_board_length[OF le])
    ultimately show "length (fst s1 (fst u)) \<le> 2" by simp
  qed
  then have "\<exists>s'. fold_err twin_step tw s1 = Inr s'" by (rule Cons.IH)
  with s1 show ?case by simp
qed

lemma twins_of_length: "t \<in> set (twins_of v unit) \<Longrightarrow> length (v (fst t)) = 2"
  by (auto simp: twins_of_def)

lemma naked_twins_unit_total: "\<exists>s'. naked_twins_unit unit s = Inr s'"
  unfolding naked_twins_unit_def
  by (rule twins_total) (simp add: twins_of_length)

lemma naked_twins_total: "\<exists>s'. naked_twins s = Inr s'"
  unfolding naked_twins_def
  by (rule fold_err_total) (rule naked_twins_unit_total)

lemma subseq_set: "subseq xs ys \<Longrightarrow> set xs \<subseteq> set ys"
proof
  fix x assume "subseq xs ys" "x \<in> set xs"
  then obtain y where "y \<in> set ys" "x = y" using list_emb_set[of "(=)" xs ys x] by blast
  then show "x \<in> set ys" by simp
qed

lemma le_board_set: "le_board v' v \<Longrightarrow> set (v' b) \<subseteq> set (v b)"
  unfolding le_board_def using subseq_set by blast

lemma le_board_card: "le_board v' v \<Longrightarrow> card (set (v' b)) \<le> card (set (v b))"
proof -
  assume "le_board v' v"
  then have "set (v' b) \<subseteq> set (v b)" by (rule le_board_set)
  moreover have "finite (set (v b))" by simp
  ultimately show ?thesis by (rule card_mono[rotated])
qed

text \<open>
  C6. Each of the three propagators, applied to any board, leaves in every cell a candidate
  string that is no longer than before and has no more distinct digits than before.
  \<^verbatim>\<open>naked_twins\<close> always returns (its unpacking of a twin's two digits never raises).
\<close>

theorem propagators_never_grow:
  "(length (fst (eliminate s) b) \<le> length (fst s b) \<and>
    card (set (fst (eliminate s) b)) \<le> card (set (fst s b))) \<and>
   (length (fst (only_choice s) b) \<le> length (fst s b) \<and>
    card (set (fst (only_choice s) b)) \<le> card (set (fst s b))) \<and>
   (\<exists>s'. naked_twins s = Inr s' \<and>
      length (fst s' b) \<le> length (fst s b) \<and>
      card (set (fst s' b)) \<le> card (set (fst s b)))"
proof -
  obtain s' where s': "naked_twins s = Inr s'" using naked_twins_total by blast
  have "le_board (fst s') (fst s)" by (rule naked_twins_le[OF s'])
  then have "length (fst s' b) \<le> length (fst s b) \<and> card (set (fst s' b)) \<le> card (set (fst s b))"
    by (simp add: le_board_length le_board_card)
  with s' show ?thesis
    by (simp add: le_board_length le_board_card eliminate_le only_choice_le)
qed

subsection \<open>The canonical form of candidate strings\<close>

definition canonical :: "string \<Rightarrow> bool" where
  "canonical s = (sorted_wrt (<) s \<and> set s \<subseteq> set digits)"

lemma sorted_wrt_subseq:
  "subseq xs ys \<Longrightarrow> sorted_wrt P ys \<Longrightarrow> sorted_wrt P xs"
proof (induction rule: list_emb.induct)
  case (list_emb_Nil ys)
  then show ?case by simp
next
  case (list_emb_Cons xs ys y)
  then show ?case by simp
next
  case (list_emb_Cons2 x y xs ys)
  have "set xs \<subseteq> set ys" using list_emb_Cons2.hyps(2) by (rule subseq_set)
  with list_emb_Cons2 show ?case by auto
qed

lemma canonical_subseq: "canonical s \<Longrightarrow> subseq t s \<Longrightarrow> canonical t"
  unfolding canonical_def using sorted_wrt_subseq subseq_set by blast

lemma canonical_digits: "canonical digits"
  by (simp add: canonical_def digits_def)

lemma canonical_Nil: "canonical []"
  by (simp add: canonical_def)

lemma canonical_single: "c \<in> set digits \<Longrightarrow> canonical [c]"
  by (simp add: canonical_def)

lemma canonical_iff_subseq: "canonical s \<longleftrightarrow> subseq s digits"
proof
  assume c: "canonical s"
  have "sorted_wrt (\<le>) digits" by (simp add: digits_def)
  with c show "subseq s digits"
    unfolding canonical_def by (simp add: sorted_subset_imp_subseq)
next
  assume "subseq s digits"
  with canonical_digits show "canonical s" by (rule canonical_subseq)
qed

lemma canonical_eq_iff:
  assumes "canonical x" "canonical y"
  shows "x = y \<longleftrightarrow> set x = set y"
proof
  assume "set x = set y"
  moreover have "sorted x" "distinct x" "sorted y" "distinct y"
    using assms by (simp_all add: canonical_def strict_sorted_iff)
  ultimately show "x = y" by (simp add: sorted_distinct_set_unique)
qed simp

lemma canonical_card: "canonical x \<Longrightarrow> card (set x) = length x"
  by (simp add: canonical_def strict_sorted_iff distinct_card)

lemma le_board_canonical:
  "le_board v' v \<Longrightarrow> (\<forall>b. canonical (v b)) \<Longrightarrow> canonical (v' b)"
  unfolding le_board_def using canonical_subseq by blast

lemma grid_values_canonical:
  assumes "grid_values grid = Inr v"
  shows "canonical (v b)"
proof -
  let ?numbers = "map (\<lambda>c. if c = CHR ''.'' then digits else [c]) grid"
  from assms have ok: "list_all (\<lambda>c. c \<in> set (digits @ ''.'')) grid"
    and v: "v = (\<lambda>box. case map_of (zip boxes ?numbers) box of Some x \<Rightarrow> x | None \<Rightarrow> [])"
    by (auto simp: grid_values_def Let_def split: if_splits)
  have num: "canonical x" if "x \<in> set ?numbers" for x
  proof -
    from that obtain c where c: "c \<in> set grid" and x: "x = (if c = CHR ''.'' then digits else [c])"
      by auto
    from ok c have "c \<in> set (digits @ ''.'')" by (simp add: list_all_iff)
    then have "c \<noteq> CHR ''.'' \<Longrightarrow> c \<in> set digits" by auto
    with x show ?thesis by (auto simp: canonical_digits canonical_single)
  qed
  show ?thesis
  proof (cases "map_of (zip boxes ?numbers) b")
    case None
    then show ?thesis by (simp add: v canonical_Nil)
  next
    case (Some x)
    then have "(b, x) \<in> set (zip boxes ?numbers)" by (rule map_of_SomeD)
    then have "x \<in> set ?numbers" by (rule set_zip_rightD)
    then show ?thesis using Some num by (simp add: v)
  qed
qed

lemma twins_of_iff:
  "(b1, b2) \<in> set (twins_of v unit) \<longleftrightarrow>
     b1 \<in> set unit \<and> b2 \<in> set unit \<and> b1 < b2 \<and> length (v b1) = 2 \<and> v b1 = v b2"
proof -
  have "(b1, b2) \<in> set (twins_of v unit) \<longleftrightarrow>
     b1 \<in> set unit \<and> b2 \<in> set unit \<and> length (v b1) = length (v b2) \<and> length (v b2) = 2 \<and>
     v b1 = v b2 \<and> b1 < b2"
    unfolding twins_of_def by (simp add: image_iff)
  then show ?thesis by auto
qed

text \<open>
  C10. Every candidate string of a board built by \<^verbatim>\<open>grid_values\<close>, and of every board a
  propagator makes from a board of such strings, is strictly ascending with characters
  from \<^verbatim>\<open>'123456789'\<close>, which is the same as being a subsequence of that string. On
  such strings equality of strings is equality of candidate sets, so the comparison in
  \<^verbatim>\<open>naked_twins\<close> finds exactly the pairs of a unit with the same two-element candidate set.
\<close>

theorem canonical_boards:
  "(grid_values grid = Inr v0 \<longrightarrow> (\<forall>b. canonical (v0 b))) \<and>
   ((\<forall>b. canonical (fst s b)) \<longrightarrow>
      (\<forall>b. canonical (fst (eliminate s) b)) \<and>
      (\<forall>b. canonical (fst (only_choice s) b)) \<and>
      (\<exists>s'. naked_twins s = Inr s' \<and> (\<forall>b. canonical (fst s' b)))) \<and>
   (canonical x \<longleftrightarrow> subseq x digits) \<and>
   (canonical x \<and> canonical y \<longrightarrow> (x = y \<longleftrightarrow> set x = set y)) \<and>
   ((\<forall>b. canonical (v b)) \<longrightarrow>
      set (twins_of v unit) =
        {(b1, b2). b1 \<in> set unit \<and> b2 \<in> set unit \<and> b1 < b2 \<and>
                   card (set (v b1)) = 2 \<and> set (v b1) = set (v b2)})"
proof (intro conjI impI)
  assume "grid_values grid = Inr v0"
  then show "\<forall>b. canonical (v0 b)" using grid_values_canonical by blast
next
  assume c: "\<forall>b. canonical (fst s b)"
  show "\<forall>b. canonical (fst (eliminate s) b)"
    using le_board_canonical[OF eliminate_le c] by blast
  show "\<forall>b. canonical (fst (only_choice s) b)"
    using le_board_canonical[OF only_choice_le c] by blast
  obtain s' where s': "naked_twins s = Inr s'" using naked_twins_total by blast
  have "\<forall>b. canonical (fst s' b)"
    using le_board_canonical[OF naked_twins_le[OF s'] c] by blast
  with s' show "\<exists>s'. naked_twins s = Inr s' \<and> (\<forall>b. canonical (fst s' b))" by blast
next
  show "canonical x \<longleftrightarrow> subseq x digits" by (rule canonical_iff_subseq)
next
  assume "canonical x \<and> canonical y"
  then show "x = y \<longleftrightarrow> set x = set y" using canonical_eq_iff by blast
next
  assume c: "\<forall>b. canonical (v b)"
  show "set (twins_of v unit) =
        {(b1, b2). b1 \<in> set unit \<and> b2 \<in> set unit \<and> b1 < b2 \<and>
                   card (set (v b1)) = 2 \<and> set (v b1) = set (v b2)}"
  proof (rule set_eqI)
    fix t :: "cell \<times> cell"
    obtain b1 b2 where t: "t = (b1, b2)" by (cases t)
    have "v b1 = v b2 \<longleftrightarrow> set (v b1) = set (v b2)" using c canonical_eq_iff by blast
    moreover have "card (set (v b1)) = length (v b1)" using c canonical_card by blast
    ultimately show "t \<in> set (twins_of v unit) \<longleftrightarrow>
        t \<in> {(b1, b2). b1 \<in> set unit \<and> b2 \<in> set unit \<and> b1 < b2 \<and>
                   card (set (v b1)) = 2 \<and> set (v b1) = set (v b2)}"
      by (simp add: t twins_of_iff)
  qed
qed

subsection \<open>Contradictions are reported by the reducer\<close>

text \<open>
  \<open>loop_state s t\<close>: the \<^verbatim>\<open>while\<close> loop of \<^verbatim>\<open>reduce_puzzle\<close>, started on \<open>s\<close>, begins one of
  its iterations in state \<open>t\<close>.
\<close>

inductive loop_state :: "state \<Rightarrow> state \<Rightarrow> bool" where
  first: "loop_state s s"
| again: "loop_state s t \<Longrightarrow> naked_twins (only_choice (eliminate t)) = Inr t' \<Longrightarrow>
          n_empty (fst t') = 0 \<Longrightarrow> n_solved (fst t') \<noteq> n_solved (fst t) \<Longrightarrow> loop_state s t'"

lemma loop_state_reduce: "loop_state s t \<Longrightarrow> reduce_puzzle s = reduce_puzzle t"
proof (induction rule: loop_state.induct)
  case (first s)
  then show ?case by simp
next
  case (again s t t')
  have "reduce_puzzle t = reduce_puzzle t'"
    using again.hyps(2-4) by (subst reduce_puzzle.simps) simp
  with again.IH show ?case by simp
qed

lemma n_empty_zero_iff: "n_empty v = 0 \<longleftrightarrow> (\<forall>b \<in> set boxes. v b \<noteq> [])"
  by (simp add: n_empty_def filter_empty_conv)

lemma reduce_puzzle_Some_n_empty:
  "reduce_puzzle s = Inr (Some v, log) \<Longrightarrow> n_empty v = 0"
proof (induction s rule: reduce_puzzle.induct)
  case (1 s)
  from "1.prems" obtain s' where p: "naked_twins (only_choice (eliminate s)) = Inr s'"
    by (subst (asm) reduce_puzzle.simps) (auto split: sum.splits)
  show ?case
  proof (cases "n_empty (fst s') \<noteq> 0")
    case True
    with "1.prems" p show ?thesis by (subst (asm) reduce_puzzle.simps) simp
  next
    case ne: False
    show ?thesis
    proof (cases "n_solved (fst s') = n_solved (fst s)")
      case True
      with "1.prems" p ne have "v = fst s'" by (subst (asm) reduce_puzzle.simps) simp
      with ne show ?thesis by simp
    next
      case False
      with "1.prems" p ne have "reduce_puzzle s' = Inr (Some v, log)"
        by (subst (asm) reduce_puzzle.simps) simp
      then show ?thesis using "1.IH"[OF p ne False] by simp
    qed
  qed
qed

text \<open>
  C2. Whenever a pass of the loop of \<^verbatim>\<open>reduce_puzzle\<close> leaves a box with an empty candidate
  string, \<^verbatim>\<open>reduce_puzzle\<close> returns \<^verbatim>\<open>False\<close> (here \<open>None\<close>) with the record as that pass left
  it; so a board that \<^verbatim>\<open>reduce_puzzle\<close> returns has no empty candidate string, also when it
  is returned because the count of solved boxes stopped growing.
\<close>

theorem reduce_puzzle_reports_empty:
  "(loop_state s t \<and> naked_twins (only_choice (eliminate t)) = Inr t' \<and>
      (\<exists>b \<in> set boxes. fst t' b = []) \<longrightarrow> reduce_puzzle s = Inr (None, snd t')) \<and>
   (reduce_puzzle s = Inr (Some v, log) \<longrightarrow> (\<forall>b \<in> set boxes. v b \<noteq> []))"
proof (intro conjI impI)
  assume a: "loop_state s t \<and> naked_twins (only_choice (eliminate t)) = Inr t' \<and>
      (\<exists>b \<in> set boxes. fst t' b = [])"
  then have "n_empty (fst t') \<noteq> 0" by (simp add: n_empty_zero_iff)
  with a have "reduce_puzzle t = Inr (None, snd t')"
    by (subst reduce_puzzle.simps) simp
  with a show "reduce_puzzle s = Inr (None, snd t')" using loop_state_reduce[of s t] by simp
next
  assume "reduce_puzzle s = Inr (Some v, log)"
  then have "n_empty v = 0" by (rule reduce_puzzle_Some_n_empty)
  then show "\<forall>b \<in> set boxes. v b \<noteq> []" by (simp add: n_empty_zero_iff)
qed

subsection \<open>Fixed points of the propagators\<close>

lemma le_board_antisym: "le_board a b \<Longrightarrow> le_board b a \<Longrightarrow> a = b"
proof
  fix x assume "le_board a b" "le_board b a"
  then have "subseq (a x) (b x)" "subseq (b x) (a x)" by (simp_all add: le_board_def)
  then show "a x = b x" by (rule subseq_order.antisym)
qed

lemma assign_value_same: "fst (assign_value s b x) = fst s \<Longrightarrow> assign_value s b x = s"
proof -
  assume a: "fst (assign_value s b x) = fst s"
  have "fst s b = x"
  proof -
    have "(fst (assign_value s b x)) b = x" by simp
    with a show ?thesis by simp
  qed
  then show ?thesis by (simp add: assign_value_def)
qed

lemma fold_same:
  assumes le: "\<And>x s. le_board (fst (f x s)) (fst s)"
    and same: "\<And>x s. fst (f x s) = fst s \<Longrightarrow> f x s = s"
  shows "fst (fold f xs s) = fst s \<Longrightarrow> fold f xs s = s"
proof (induction xs arbitrary: s)
  case Nil
  then show ?case by simp
next
  case (Cons a xs)
  have 1: "le_board (fst (fold f xs (f a s))) (fst (f a s))"
    by (rule fold_le_board) (rule le)
  have 2: "le_board (fst (f a s)) (fst s)" by (rule le)
  from Cons.prems have e: "fst (fold f xs (f a s)) = fst s" by simp
  with 1 have "le_board (fst s) (fst (f a s))" by simp
  with 2 have "fst (f a s) = fst s" by (rule le_board_antisym)
  then have "f a s = s" by (rule same)
  with Cons show ?case by simp
qed

lemma fold_err_same:
  assumes le: "\<And>x s s'. f x s = Inr s' \<Longrightarrow> le_board (fst s') (fst s)"
    and same: "\<And>x s s'. f x s = Inr s' \<Longrightarrow> fst s' = fst s \<Longrightarrow> s' = s"
  shows "fold_err f xs s = Inr s' \<Longrightarrow> fst s' = fst s \<Longrightarrow> s' = s"
proof (induction xs arbitrary: s)
  case Nil
  then show ?case by simp
next
  case (Cons a xs)
  from Cons.prems(1) obtain s1 where s1: "f a s = Inr s1" and r: "fold_err f xs s1 = Inr s'"
    by (auto split: sum.splits)
  have 1: "le_board (fst s') (fst s1)"
    using r by (rule fold_err_le_board[rotated]) (rule le)
  have 2: "le_board (fst s1) (fst s)" using s1 by (rule le)
  from 1 Cons.prems(2) have "le_board (fst s) (fst s1)" by simp
  with 2 have e: "fst s1 = fst s" by (rule le_board_antisym)
  with s1 have "s1 = s" by (rule same)
  with Cons.IH[OF r] Cons.prems(2) e show ?case by simp
qed

lemma eliminate_peer_same:
  "fst (eliminate_peer d p s) = fst s \<Longrightarrow> eliminate_peer d p s = s"
  unfolding eliminate_peer_def by (rule assign_value_same)

lemma twin_peer_same: "fst (twin_peer a b p s) = fst s \<Longrightarrow> twin_peer a b p s = s"
  unfolding twin_peer_def by (rule assign_value_same)

lemma eliminate_same: "fst (eliminate s) = fst s \<Longrightarrow> eliminate s = s"
  unfolding eliminate_def
proof (rule fold_same)
  fix x t show "le_board (fst (eliminate_box x t)) (fst t)" by (rule eliminate_box_le)
next
  fix x t assume "fst (eliminate_box x t) = fst t"
  then show "eliminate_box x t = t"
    unfolding eliminate_box_def Let_def
    by (rule fold_same[rotated 2]) (rule eliminate_peer_le, erule eliminate_peer_same)
qed

lemma only_choice_digit_same:
  "fst (only_choice_digit unit d s) = fst s \<Longrightarrow> only_choice_digit unit d s = s"
  by (auto simp: only_choice_digit_def Let_def assign_value_same simp del: fst_assign_value)

lemma only_choice_same: "fst (only_choice s) = fst s \<Longrightarrow> only_choice s = s"
  unfolding only_choice_def
proof (rule fold_same)
  fix x t show "le_board (fst (fold (only_choice_digit x) digits t)) (fst t)"
    by (rule fold_le_board) (rule only_choice_digit_le)
next
  fix x t assume "fst (fold (only_choice_digit x) digits t) = fst t"
  then show "fold (only_choice_digit x) digits t = t"
    by (rule fold_same[rotated 2]) (simp_all add: only_choice_digit_le only_choice_digit_same)
qed

lemma twin_step_same: "twin_step twin s = Inr s' \<Longrightarrow> fst s' = fst s \<Longrightarrow> s' = s"
proof -
  assume a: "twin_step twin s = Inr s'" and e: "fst s' = fst s"
  show ?thesis
  proof (cases "length (fst s (fst twin)) < 2")
    case True
    with a show ?thesis by (simp add: twin_step_def)
  next
    case False
    with a obtain v1 v2 where
      s': "s' = fold (twin_peer v1 v2) (shared_peers (fst twin) (snd twin)) s"
      by (auto simp: twin_step_def Let_def split: list.splits)
    have "fold (twin_peer v1 v2) (shared_peers (fst twin) (snd twin)) s = s"
      using e unfolding s'
      by (rule fold_same[rotated 2]) (rule twin_peer_le, erule twin_peer_same)
    with s' show ?thesis by simp
  qed
qed

lemma naked_twins_unit_same:
  "naked_twins_unit unit s = Inr s' \<Longrightarrow> fst s' = fst s \<Longrightarrow> s' = s"
  unfolding naked_twins_unit_def
  by (erule fold_err_same[rotated 2]) (simp_all add: twin_step_le twin_step_same)

lemma naked_twins_same: "naked_twins s = Inr s' \<Longrightarrow> fst s' = fst s \<Longrightarrow> s' = s"
  unfolding naked_twins_def
  by (erule fold_err_same[rotated 2]) (simp_all add: naked_twins_unit_le naked_twins_unit_same)

text \<open>
  C5. On a board that each of the three propagators leaves unchanged, the reducer returns
  that very board (and appends nothing to the record) unless a candidate string is empty,
  in which case it returns \<^verbatim>\<open>False\<close>; so running it again on the board it returned gives the
  identical board.
\<close>

theorem reduce_puzzle_idempotent:
  assumes "fst (eliminate s) = fst s" and "fst (only_choice s) = fst s"
    and "\<exists>s'. naked_twins s = Inr s' \<and> fst s' = fst s"
  shows "reduce_puzzle s =
           (if n_empty (fst s) \<noteq> 0 then Inr (None, snd s) else Inr (Some (fst s), snd s)) \<and>
         (\<forall>v log. reduce_puzzle s = Inr (Some v, log) \<longrightarrow>
            v = fst s \<and> log = snd s \<and> reduce_puzzle (v, log) = Inr (Some v, log))"
proof -
  have e: "eliminate s = s" using assms(1) by (rule eliminate_same)
  have o: "only_choice s = s" using assms(2) by (rule only_choice_same)
  from assms(3) obtain s' where "naked_twins s = Inr s'" "fst s' = fst s" by blast
  then have n: "naked_twins s = Inr s" using naked_twins_same by blast
  have r: "reduce_puzzle s =
           (if n_empty (fst s) \<noteq> 0 then Inr (None, snd s) else Inr (Some (fst s), snd s))"
    by (subst reduce_puzzle.simps) (simp add: e o n)
  then show ?thesis by (auto split: if_splits)
qed

subsection \<open>Naked twins\<close>

lemma set_peers_list: "set (peers_list box) = peers box"
  by (simp add: peers_list_def peers_def)

lemma not_self_peer: "box \<notin> peers box"
  by (simp add: peers_def)

lemma set_shared_peers: "set (shared_peers box1 box2) = peers box1 \<inter> peers box2"
  using not_self_peer[of box1] not_self_peer[of box2]
  by (auto simp: shared_peers_def set_peers_list)

lemma fold_twin_peer_board:
  "fst (fold (twin_peer a b) ps s) =
     (\<lambda>c. if c \<in> set ps then filter (\<lambda>x. x \<noteq> a \<and> x \<noteq> b) (fst s c) else fst s c)"
proof (induction ps arbitrary: s)
  case Nil
  then show ?case by simp
next
  case (Cons p ps)
  have "fst (twin_peer a b p s) = (fst s)(p := filter (\<lambda>x. x \<noteq> a \<and> x \<noteq> b) (fst s p))"
    by (simp add: twin_peer_def delete_all_single conj_commute)
  then show ?case using Cons.IH[of "twin_peer a b p s"] by (auto simp: fun_eq_iff)
qed

lemma twin_step_two:
  assumes "fst s box1 = [d1, d2]"
  shows "twin_step (box1, box2) s = Inr (fold (twin_peer d1 d2) (shared_peers box1 box2) s)"
  using assms by (simp add: twin_step_def)

lemma twin_step_skip: "length (fst s box1) < 2 \<Longrightarrow> twin_step (box1, box2) s = Inr s"
  by (simp add: twin_step_def)

text \<open>
  C4. In one unit, \<^verbatim>\<open>naked_twins\<close> detects exactly the pairs \<open>(b1, b2)\<close> of boxes of the unit
  with \<open>b1 < b2\<close> and the same two-character candidate string. When such a pair is
  processed and its first box still has two candidates \<open>d1, d2\<close>, these two digits are
  deleted from every box that is a peer of both boxes, and no other box changes (the two
  boxes of the pair are not among them). When the first box has fewer than two candidates
  left, the pair is skipped. Neither the loop over the twins of a unit nor \<^verbatim>\<open>naked_twins\<close>
  as a whole ever raises.
\<close>

theorem naked_twins_pairs:
  "((b1, b2) \<in> set (twins_of (fst s) unit) \<longleftrightarrow>
      b1 \<in> set unit \<and> b2 \<in> set unit \<and> b1 < b2 \<and>
      length (fst s b1) = 2 \<and> fst s b1 = fst s b2) \<and>
   (fst s b1 = [d1, d2] \<longrightarrow>
      (\<exists>s'. twin_step (b1, b2) s = Inr s' \<and>
         (\<forall>c. fst s' c =
            (if c \<in> peers b1 \<inter> peers b2 then filter (\<lambda>x. x \<noteq> d1 \<and> x \<noteq> d2) (fst s c)
             else fst s c)) \<and>
         b1 \<notin> peers b1 \<inter> peers b2 \<and> b2 \<notin> peers b1 \<inter> peers b2)) \<and>
   (length (fst s b1) < 2 \<longrightarrow> twin_step (b1, b2) s = Inr s) \<and>
   (\<exists>s'. naked_twins_unit unit s = Inr s') \<and>
   (\<exists>s'. naked_twins s = Inr s')"
proof (intro conjI impI)
  show "(b1, b2) \<in> set (twins_of (fst s) unit) \<longleftrightarrow>
      b1 \<in> set unit \<and> b2 \<in> set unit \<and> b1 < b2 \<and>
      length (fst s b1) = 2 \<and> fst s b1 = fst s b2"
    by (rule twins_of_iff)
next
  assume two: "fst s b1 = [d1, d2]"
  let ?s' = "fold (twin_peer d1 d2) (shared_peers b1 b2) s"
  have "twin_step (b1, b2) s = Inr ?s'" using two by (rule twin_step_two)
  moreover have "\<forall>c. fst ?s' c =
            (if c \<in> peers b1 \<inter> peers b2 then filter (\<lambda>x. x \<noteq> d1 \<and> x \<noteq> d2) (fst s c)
             else fst s c)"
    by (simp add: fold_twin_peer_board set_shared_peers)
  moreover have "b1 \<notin> peers b1 \<inter> peers b2" "b2 \<notin> peers b1 \<inter> peers b2"
    using not_self_peer by auto
  ultimately show "\<exists>s'. twin_step (b1, b2) s = Inr s' \<and>
         (\<forall>c. fst s' c =
            (if c \<in> peers b1 \<inter> peers b2 then filter (\<lambda>x. x \<noteq> d1 \<and> x \<noteq> d2) (fst s c)
             else fst s c)) \<and>
         b1 \<notin> peers b1 \<inter> peers b2 \<and> b2 \<notin> peers b1 \<inter> peers b2"
    by blast
next
  assume "length (fst s b1) < 2"
  then show "twin_step (b1, b2) s = Inr s" by (rule twin_step_skip)
next
  show "\<exists>s'. naked_twins_unit unit s = Inr s'" by (rule naked_twins_unit_total)
next
  show "\<exists>s'. naked_twins s = Inr s'" by (rule naked_twins_total)
qed

definition twin_board :: board where
  "twin_board = (\<lambda>box. digits)(''A1'' := ''12'', ''A2'' := ''12'')"

theorem naked_twins_pairs_witness:
  "(''A1'', ''A2'') \<in> set (twins_of twin_board (hd unitlist)) \<and>
   (\<exists>s'. twin_step (''A1'', ''A2'') (twin_board, []) = Inr s' \<and>
      fst s' ''A1'' = ''12'' \<and> fst s' ''A2'' = ''12'' \<and>
      fst s' ''A5'' = ''3456789'' \<and> fst s' ''C3'' = ''3456789'' \<and>
      fst s' ''D1'' = ''123456789'') \<and>
   twin_step (''A1'', ''A2'') (twin_board(''A1'' := ''1''), []) =
     Inr (twin_board(''A1'' := ''1''), [])"
proof -
  note th = naked_twins_pairs[where ?b1.0 = "''A1''" and ?b2.0 = "''A2''"
      and s = "(twin_board, [])" and unit = "hd unitlist"
      and ?d1.0 = "CHR ''1''" and ?d2.0 = "CHR ''2''"]
  have unit: "hd unitlist = [''A1'', ''A2'', ''A3'', ''A4'', ''A5'', ''A6'', ''A7'', ''A8'', ''A9'']"
    by (simp add: unitlist_eval)
  have m: "''A5'' \<in> peers ''A1'' \<inter> peers ''A2''" "''C3'' \<in> peers ''A1'' \<inter> peers ''A2''"
    "''D1'' \<notin> peers ''A1'' \<inter> peers ''A2''"
    by (simp_all add: peers_def units_def unitlist_eval)
  have two: "fst (twin_board, [] :: board list) ''A1'' = [CHR ''1'', CHR ''2'']"
    by (simp add: twin_board_def)
  have pre: "''A1'' \<in> set (hd unitlist) \<and> ''A2'' \<in> set (hd unitlist) \<and> ''A1'' < ''A2'' \<and>
      length (fst (twin_board, [] :: board list) ''A1'') = 2 \<and>
      fst (twin_board, [] :: board list) ''A1'' = fst (twin_board, [] :: board list) ''A2''"
    by (simp add: twin_board_def unit)
  have "(''A1'', ''A2'') \<in> set (twins_of (fst (twin_board, [] :: board list)) (hd unitlist))"
    using th[THEN conjunct1] pre by blast
  then have tw: "(''A1'', ''A2'') \<in> set (twins_of twin_board (hd unitlist))"
    by simp
  from th[THEN conjunct2, THEN conjunct1, THEN mp, OF two]
  obtain s' where s': "twin_step (''A1'', ''A2'') (twin_board, []) = Inr s'"
    and b: "\<forall>c. fst s' c =
            (if c \<in> peers ''A1'' \<inter> peers ''A2''
             then filter (\<lambda>x. x \<noteq> CHR ''1'' \<and> x \<noteq> CHR ''2'')
                    (fst (twin_board, [] :: board list) c)
             else fst (twin_board, [] :: board list) c)"
    and n: "''A1'' \<notin> peers ''A1'' \<inter> peers ''A2''" "''A2'' \<notin> peers ''A1'' \<inter> peers ''A2''"
    by blast
  have "fst s' ''A1'' = ''12''" "fst s' ''A2'' = ''12''" "fst s' ''A5'' = ''3456789''"
    "fst s' ''C3'' = ''3456789''" "fst s' ''D1'' = ''123456789''"
    using b m n by (simp_all add: twin_board_def digits_def)
  moreover have "twin_step (''A1'', ''A2'') (twin_board(''A1'' := ''1''), []) =
     Inr (twin_board(''A1'' := ''1''), [])"
    using naked_twins_pairs[where ?b1.0 = "''A1''" and ?b2.0 = "''A2''"
        and s = "(twin_board(''A1'' := ''1''), [])",
        THEN conjunct2, THEN conjunct2, THEN conjunct1]
    by simp
  ultimately show ?thesis using tw s' by blast
qed

subsection \<open>Termination of search and the depth of its recursion\<close>

text \<open>
  \<^verbatim>\<open>search\<close> is a total function: the termination proof above uses that the sum of the
  lengths of the candidate strings falls with every recursive call. The depth of the
  recursion is bounded by the number of boxes that still have more than one candidate.
  \<open>search_bounded k\<close> is \<^verbatim>\<open>search\<close> with at most \<open>k\<close> activations on the call stack; it
  returns \<open>None\<close> where \<^verbatim>\<open>search\<close> would nest deeper.
\<close>

definition n_open :: "board \<Rightarrow> nat" where
  "n_open values = length (filter (\<lambda>b. 1 < length (values b)) boxes)"

function search_bounded :: "nat \<Rightarrow> state \<Rightarrow> (error + (result \<times> board list)) option"
  and branches_bounded ::
    "nat \<Rightarrow> board \<Rightarrow> cell \<Rightarrow> string \<Rightarrow> board list \<Rightarrow> (error + (result \<times> board list)) option"
  where
  "search_bounded 0 s = None"
| "search_bounded (Suc k) s =
     (case reduce_puzzle s of
        Inl e \<Rightarrow> Some (Inl e)
      | Inr (None, assignments) \<Rightarrow> Some (Inr (PyFalse, assignments))
      | Inr (Some values, assignments) \<Rightarrow>
          if all_fixed values then Some (Inr (Solved values, assignments))
          else
            (case min_box values of
               Inl e \<Rightarrow> Some (Inl e)
             | Inr (n, box) \<Rightarrow> branches_bounded k values box (values box) assignments))"
| "branches_bounded k values box [] assignments = Some (Inr (PyNone, assignments))"
| "branches_bounded k values box (v # vs) assignments =
     (case search_bounded k (values(box := [v]), assignments) of
        None \<Rightarrow> None
      | Some (Inl e) \<Rightarrow> Some (Inl e)
      | Some (Inr (solved, assignments')) \<Rightarrow>
          if truthy solved then Some (Inr (solved, assignments'))
          else branches_bounded k values box vs assignments')"
  by pat_completeness auto
termination
  by (relation "measures
    [\<lambda>x. case x of Inl (k, s) \<Rightarrow> 2 * k | Inr (k, vals, box, vs, a) \<Rightarrow> 2 * k + 1,
     \<lambda>x. case x of Inl (k, s) \<Rightarrow> 0 | Inr (k, vals, box, vs, a) \<Rightarrow> length vs]") auto

lemma n_open_le_boxes: "n_open v \<le> 81"
  using length_filter_le[of "\<lambda>b. 1 < length (v b)" boxes] by (simp add: n_open_def length_boxes)

lemma n_open_mono: "le_board v' v \<Longrightarrow> n_open v' \<le> n_open v"
  unfolding n_open_def
proof (rule filter_length_mono)
  fix x assume "le_board v' v" "1 < length (v' x)"
  then show "1 < length (v x)" using le_board_length[of v' v x] by simp
qed

lemma n_open_upd_short:
  assumes "length x \<le> 1" "length y \<le> 1"
  shows "n_open (v(box := x)) = n_open (v(box := y))"
proof -
  have "filter (\<lambda>b. 1 < length ((v(box := x)) b)) boxes =
        filter (\<lambda>b. 1 < length ((v(box := y)) b)) boxes"
    using assms by (intro filter_cong) auto
  then show ?thesis by (simp add: n_open_def)
qed

lemma length_filter_upd:
  assumes "distinct xs" "box \<in> set xs" "1 < length (v box)"
  shows "length (filter (\<lambda>b. 1 < length ((v(box := [])) b)) xs) + 1 =
         length (filter (\<lambda>b. 1 < length (v b)) xs)"
  using assms
proof (induction xs)
  case Nil
  then show ?case by simp
next
  case (Cons a xs)
  show ?case
  proof (cases "a = box")
    case True
    then have "box \<notin> set xs" using Cons.prems by simp
    then have "filter (\<lambda>b. 1 < length ((v(box := [])) b)) xs = filter (\<lambda>b. 1 < length (v b)) xs"
      by (intro filter_cong) auto
    then show ?thesis using True Cons.prems by simp
  next
    case False
    then show ?thesis using Cons by simp
  qed
qed

lemma n_open_fix:
  assumes "box \<in> set boxes" "1 < length (v box)"
  shows "n_open (v(box := [c])) < n_open v"
proof -
  have "n_open (v(box := [c])) = n_open (v(box := []))" by (rule n_open_upd_short) simp_all
  moreover have "n_open (v(box := [])) + 1 = n_open v"
    unfolding n_open_def using distinct_boxes assms by (rule length_filter_upd)
  ultimately show ?thesis by simp
qed

lemma branches_bounded_enough:
  assumes child: "\<And>v a. search_bounded k (vals(box := [v]), a) = Some (search (vals(box := [v]), a))"
  shows "branches_bounded k vals box vs a = Some (search_branches vals box vs a)"
proof (induction vs arbitrary: a)
  case Nil
  then show ?case by simp
next
  case (Cons v vs)
  show ?case
  proof (cases "search (vals(box := [v]), a)")
    case (Inl e)
    then show ?thesis by (simp add: child)
  next
    case (Inr r)
    obtain solved a' where r: "r = (solved, a')" by (cases r)
    show ?thesis using Inr r Cons.IH[of a'] by (simp add: child)
  qed
qed

lemma search_bounded_enough: "n_open (fst s) < k \<Longrightarrow> search_bounded k s = Some (search s)"
proof (induction k arbitrary: s)
  case 0
  then show ?case by simp
next
  case (Suc k)
  show ?case
  proof (cases "reduce_puzzle s")
    case (Inl e)
    then show ?thesis by (simp add: search.simps)
  next
    case (Inr r)
    obtain ov a where r: "r = (ov, a)" by (cases r)
    show ?thesis
    proof (cases ov)
      case None
      with Inr r show ?thesis by (simp add: search.simps)
    next
      case (Some vals)
      note red = Inr[unfolded r Some]
      show ?thesis
      proof (cases "all_fixed vals")
        case True
        with red show ?thesis by (simp add: search.simps)
      next
        case nf: False
        show ?thesis
        proof (cases "min_box vals")
          case (Inl e)
          with red nf show ?thesis by (simp add: search.simps)
        next
          case mb: (Inr nb)
          obtain n box where nb: "nb = (n, box)" by (cases nb)
          from mb nb have b: "box \<in> set boxes" "1 < length (vals box)"
            using min_box_Inr[of vals n box] by simp_all
          have "n_open vals \<le> n_open (fst s)"
            using reduce_puzzle_le[OF red] by (rule n_open_mono)
          with Suc.prems have le: "n_open vals \<le> k" by simp
          have child: "search_bounded k (vals(box := [v]), a') = Some (search (vals(box := [v]), a'))"
            for v a'
          proof (rule Suc.IH)
            have "n_open (vals(box := [v])) < n_open vals" using b by (rule n_open_fix)
            with le show "n_open (fst (vals(box := [v]), a')) < k" by simp
          qed
          have "branches_bounded k vals box (vals box) a =
                Some (search_branches vals box (vals box) a)"
            using child by (rule branches_bounded_enough)
          with red nf mb nb show ?thesis by (simp add: search.simps)
        qed
      qed
    qed
  qed
qed

text \<open>
  C7. \<^verbatim>\<open>search\<close> returns on every board (it is total), and it does so without ever nesting
  more than 81 recursive calls below the first one: a bound of \<open>n_open + 1\<close> activations,
  hence of 82, always suffices. Whenever it branches, the board it hands to the recursive
  call has strictly fewer boxes with more than one candidate than the reduced board, which
  has at most as many as the board it was called with.
\<close>

theorem search_depth_bounded:
  "search_bounded (Suc (n_open (fst s))) s = Some (search s) \<and>
   search_bounded 82 s = Some (search s) \<and>
   n_open (fst s) \<le> 81 \<and>
   (reduce_puzzle s = Inr (Some vals, a) \<and> min_box vals = Inr (n, box) \<longrightarrow>
      n_open (vals(box := [v])) < n_open vals \<and> n_open vals \<le> n_open (fst s))"
proof (intro conjI impI)
  show "search_bounded (Suc (n_open (fst s))) s = Some (search s)"
    by (rule search_bounded_enough) simp
  show "n_open (fst s) \<le> 81" by (rule n_open_le_boxes)
  then have "n_open (fst s) < 82" by simp
  then show "search_bounded 82 s = Some (search s)" by (rule search_bounded_enough)
next
  assume a: "reduce_puzzle s = Inr (Some vals, a) \<and> min_box vals = Inr (n, box)"
  then have "box \<in> set boxes" "1 < length (vals box)"
    using min_box_Inr[of vals n box] by simp_all
  then show "n_open (vals(box := [v])) < n_open vals" by (rule n_open_fix)
  show "n_open vals \<le> n_open (fst s)"
    using a reduce_puzzle_le[of s vals a] n_open_mono by blast
qed

subsection \<open>What a pass of the reducer establishes\<close>

text \<open>
  \<open>no_peer_has v x c\<close>: on board \<open>v\<close>, no peer of box \<open>x\<close> has the digit \<open>c\<close> among its
  candidates.
\<close>

definition no_peer_has :: "board \<Rightarrow> cell \<Rightarrow> char \<Rightarrow> bool" where
  "no_peer_has v x c = (\<forall>p \<in> peers x. c \<notin> set (v p))"

lemma peers_iff:
  "q \<in> peers p \<longleftrightarrow> q \<noteq> p \<and> (\<exists>u \<in> set unitlist. p \<in> set u \<and> q \<in> set u)"
  by (auto simp: peers_def units_def)

lemma peers_sym: "q \<in> peers p \<Longrightarrow> p \<in> peers q"
  by (auto simp: peers_iff)

lemma no_peer_has_mono: "le_board v' v \<Longrightarrow> no_peer_has v x c \<Longrightarrow> no_peer_has v' x c"
  unfolding no_peer_has_def using le_board_set by blast

lemma subseq_single_chain:
  assumes "subseq [c] y" "subseq y z" "length z \<le> 1"
  shows "y = [c] \<and> z = [c]"
proof -
  have "length [c] \<le> length y" "length y \<le> length z"
    using assms(1,2) list_emb_length by blast+
  with assms(3) have l: "length y = 1" "length z = 1" by simp_all
  have "[c] = y" using assms(1) l by (intro subseq_same_length) simp_all
  moreover have "y = z" using assms(2) l by (intro subseq_same_length) simp_all
  ultimately show ?thesis by simp
qed

lemma le_board_single:
  assumes "le_board v' v" "v' x = [c]" "length (v x) \<le> 1"
  shows "v x = [c]"
proof -
  have "subseq (v' x) (v x)" using assms(1) by (simp add: le_board_def)
  then have "subseq [c] (v x)" using assms(2) by simp
  moreover have "subseq (v x) (v x)" by simp
  ultimately show ?thesis using subseq_single_chain[of c "v x" "v x"] assms(3) by simp
qed

lemma fold_eliminate_peer_other:
  "x \<notin> set ps \<Longrightarrow> fst (fold (eliminate_peer d) ps s) x = fst s x"
  by (induction ps arbitrary: s) (auto simp: eliminate_peer_def)

lemma fold_eliminate_peer_removed:
  "p \<in> set ps \<Longrightarrow> c \<notin> set (fst (fold (eliminate_peer [c]) ps s) p)"
proof (induction ps arbitrary: s)
  case Nil
  then show ?case by simp
next
  case (Cons a ps)
  show ?case
  proof (cases "p = a")
    case True
    have "c \<notin> set (fst (eliminate_peer [c] a s) a)"
      by (simp add: eliminate_peer_def delete_all_single)
    moreover have "le_board (fst (fold (eliminate_peer [c]) ps (eliminate_peer [c] a s)))
        (fst (eliminate_peer [c] a s))"
      by (rule fold_le_board) (rule eliminate_peer_le)
    ultimately show ?thesis using True le_board_set by fastforce
  next
    case False
    with Cons show ?thesis by simp
  qed
qed

lemma eliminate_box_single:
  assumes "fst s x = [c]"
  shows "no_peer_has (fst (eliminate_box x s)) x c"
  unfolding no_peer_has_def eliminate_box_def Let_def assms
  using fold_eliminate_peer_removed[of _ "peers_list x" c s] by (simp add: set_peers_list)

lemma fold_eliminate_box_stable:
  assumes "x \<in> set L" "length (fst s x) \<le> 1" "fst (fold eliminate_box L s) x = [c]"
  shows "no_peer_has (fst (fold eliminate_box L s)) x c"
  using assms
proof (induction L arbitrary: s)
  case Nil
  then show ?case by simp
next
  case (Cons a L)
  let ?s1 = "eliminate_box a s"
  let ?s' = "fold eliminate_box L ?s1"
  have le1: "le_board (fst ?s1) (fst s)" by (rule eliminate_box_le)
  have le2: "le_board (fst ?s') (fst ?s1)" by (rule fold_le_board) (rule eliminate_box_le)
  have fin: "fst ?s' x = [c]" using Cons.prems(3) by simp
  have short1: "length (fst ?s1 x) \<le> 1"
    using le_board_length[OF le1, of x] Cons.prems(2) by simp
  show ?case
  proof (cases "x \<in> set L")
    case True
    then have "no_peer_has (fst ?s') x c" using short1 fin by (rule Cons.IH)
    then show ?thesis by simp
  next
    case False
    with Cons.prems(1) have xa: "x = a" by simp
    have "fst ?s1 x = [c]" using le2 fin short1 by (rule le_board_single)
    with le1 have "fst s x = [c]" using Cons.prems(2) by (rule le_board_single)
    then have "no_peer_has (fst ?s1) x c" unfolding xa by (rule eliminate_box_single)
    with le2 have "no_peer_has (fst ?s') x c" by (rule no_peer_has_mono)
    then show ?thesis by simp
  qed
qed

lemma pass_stable:
  assumes p: "naked_twins (only_choice (eliminate s)) = Inr s'"
    and x: "x \<in> set boxes" "length (fst s x) = 1" and fin: "fst s' x = [c]"
  shows "no_peer_has (fst s') x c"
proof -
  have le: "le_board (fst s') (fst (eliminate s))"
    using naked_twins_le[OF p] only_choice_le le_board_trans by blast
  have "length (fst (eliminate s) x) \<le> 1"
    using le_board_length[OF eliminate_le, of s x] x(2) by simp
  with le fin have e: "fst (eliminate s) x = [c]" by (rule le_board_single)
  have "x \<in> set (filter (\<lambda>box. length (fst s box) = 1) boxes)" using x by simp
  then have "no_peer_has (fst (eliminate s)) x c"
    using x(2) e unfolding eliminate_def by (intro fold_eliminate_box_stable) simp_all
  with le show ?thesis by (rule no_peer_has_mono)
qed

lemma filter_length_eq_imp:
  assumes "\<And>x. x \<in> set xs \<Longrightarrow> P x \<Longrightarrow> Q x"
    and "length (filter P xs) = length (filter Q xs)" and "x \<in> set xs" and "Q x"
  shows "P x"
  using assms
proof (induction xs)
  case Nil
  then show ?case by simp
next
  case (Cons a xs)
  have le: "length (filter P xs) \<le> length (filter Q xs)"
    by (rule filter_length_mono) (simp add: Cons.prems(1))
  show ?case
  proof (cases "x = a")
    case True
    show ?thesis
    proof (rule ccontr)
      assume "\<not> P x"
      with True Cons.prems(2,4) le show False by simp
    qed
  next
    case False
    with Cons.prems(3) have xin: "x \<in> set xs" by simp
    have "length (filter P xs) = length (filter Q xs)"
    proof (cases "P a")
      case True
      then have "Q a" using Cons.prems(1) by simp
      with True Cons.prems(2) show ?thesis by simp
    next
      case pf: False
      show ?thesis
      proof (cases "Q a")
        case True
        with pf Cons.prems(2) le show ?thesis by simp
      next
        case False
        with pf Cons.prems(2) show ?thesis by simp
      qed
    qed
    then show ?thesis using Cons.IH[OF _ _ xin Cons.prems(4)] Cons.prems(1) by simp
  qed
qed

lemma loop_state_trans: "loop_state s' t \<Longrightarrow> loop_state s s' \<Longrightarrow> loop_state s t"
  by (induction rule: loop_state.induct) (auto intro: loop_state.again)

lemma reduce_puzzle_last_pass:
  "reduce_puzzle s = Inr (Some v, a) \<Longrightarrow>
   \<exists>t. loop_state s t \<and> naked_twins (only_choice (eliminate t)) = Inr (v, a) \<and>
       n_empty v = 0 \<and> n_solved v = n_solved (fst t)"
proof (induction s rule: reduce_puzzle.induct)
  case (1 s)
  from "1.prems" obtain s' where p: "naked_twins (only_choice (eliminate s)) = Inr s'"
    by (subst (asm) reduce_puzzle.simps) (auto split: sum.splits)
  show ?case
  proof (cases "n_empty (fst s') \<noteq> 0")
    case True
    with "1.prems" p show ?thesis by (subst (asm) reduce_puzzle.simps) simp
  next
    case ne: False
    show ?thesis
    proof (cases "n_solved (fst s') = n_solved (fst s)")
      case True
      with "1.prems" p ne have "s' = (v, a)"
        by (subst (asm) reduce_puzzle.simps) (simp add: prod_eq_iff)
      with p ne True have "loop_state s s \<and> naked_twins (only_choice (eliminate s)) = Inr (v, a) \<and>
          n_empty v = 0 \<and> n_solved v = n_solved (fst s)"
        by (simp add: loop_state.first)
      then show ?thesis by (rule exI)
    next
      case False
      with "1.prems" p ne have "reduce_puzzle s' = Inr (Some v, a)"
        by (subst (asm) reduce_puzzle.simps) simp
      then obtain t where t: "loop_state s' t"
        "naked_twins (only_choice (eliminate t)) = Inr (v, a)"
        "n_empty v = 0" "n_solved v = n_solved (fst t)"
        using "1.IH"[OF p ne False] by blast
      from ne have ne0: "n_empty (fst s') = 0" by simp
      have "loop_state s s'" using loop_state.first p ne0 False by (rule loop_state.again)
      with t(1) have "loop_state s t" by (rule loop_state_trans)
      with t show ?thesis by blast
    qed
  qed
qed

lemma reduce_puzzle_stable:
  assumes r: "reduce_puzzle s = Inr (Some v, a)" and x: "x \<in> set boxes" and fin: "v x = [c]"
  shows "no_peer_has v x c"
proof -
  from reduce_puzzle_last_pass[OF r] obtain t where
    p: "naked_twins (only_choice (eliminate t)) = Inr (v, a)"
    and ne: "n_empty v = 0" and n: "n_solved v = n_solved (fst t)"
    by blast
  have le: "le_board v (fst t)" using pass_le[OF p] by simp
  have "length (fst t x) = 1"
  proof (rule filter_length_eq_imp[where xs = boxes and Q = "\<lambda>b. length (v b) = 1"
        and P = "\<lambda>b. length (fst t b) = 1" and x = x])
    fix y assume y: "y \<in> set boxes" and l: "length (fst t y) = 1"
    have "length (v y) \<le> 1" using le_board_length[OF le, of y] l by simp
    moreover have "v y \<noteq> []" using ne y by (simp add: n_empty_zero_iff)
    ultimately show "length (v y) = 1" by (cases "v y") auto
  next
    show "length (filter (\<lambda>b. length (fst t b) = 1) boxes) = length (filter (\<lambda>b. length (v b) = 1) boxes)"
      using n by (simp add: n_solved_def)
  next
    show "x \<in> set boxes" by (rule x)
  next
    show "length (v x) = 1" using fin by simp
  qed
  with p x fin show ?thesis using pass_stable[of t "(v, a)" x c] by simp
qed

subsection \<open>Boards returned by search\<close>

text \<open>
  \<open>solved_board b\<close>: every box holds exactly one digit, and every unit has every digit in
  exactly one of its boxes.
\<close>

definition solved_board :: "board \<Rightarrow> bool" where
  "solved_board b =
     ((\<forall>box \<in> set boxes. \<exists>d \<in> set digits. b box = [d]) \<and>
      (\<forall>unit \<in> set unitlist. \<forall>d \<in> set digits. \<exists>!box. box \<in> set unit \<and> b box = [d]))"

lemma search_Solved:
  shows "search s = Inr (Solved b, a') \<Longrightarrow>
           \<exists>t. reduce_puzzle t = Inr (Some b, a') \<and> all_fixed b \<and> le_board (fst t) (fst s)"
    and "search_branches vals box vs a = Inr (Solved b, a') \<Longrightarrow> set vs \<subseteq> set (vals box) \<Longrightarrow>
           \<exists>t. reduce_puzzle t = Inr (Some b, a') \<and> all_fixed b \<and> le_board (fst t) vals"
proof (induction s and vals box vs a rule: search_search_branches.induct)
  case (1 s)
  from "1.prems" obtain r where red: "reduce_puzzle s = Inr r"
    by (subst (asm) search.simps) (auto split: sum.splits)
  obtain ov y where r: "r = (ov, y)" by (cases r)
  from "1.prems" red r obtain x2 where ov: "ov = Some x2"
    by (subst (asm) search.simps) (auto split: option.splits)
  note red' = red[unfolded r ov]
  show ?case
  proof (cases "all_fixed x2")
    case True
    with "1.prems" red' have "b = x2" "a' = y" by (subst (asm) search.simps, simp)+
    with red' True have "reduce_puzzle s = Inr (Some b, a') \<and> all_fixed b \<and> le_board (fst s) (fst s)"
      by simp
    then show ?thesis by (rule exI)
  next
    case False
    with "1.prems" red' obtain nb where mb: "min_box x2 = Inr nb"
      by (subst (asm) search.simps) (auto split: sum.splits)
    obtain n bx where nb: "nb = (n, bx)" by (cases nb)
    from "1.prems" red' False mb nb
    have sb: "search_branches x2 bx (x2 bx) y = Inr (Solved b, a')"
      by (subst (asm) search.simps) simp
    have "\<exists>t. reduce_puzzle t = Inr (Some b, a') \<and> all_fixed b \<and> le_board (fst t) x2"
      using "1.IH"[OF red r[symmetric] ov False mb nb[symmetric] sb] by simp
    then obtain t where t: "reduce_puzzle t = Inr (Some b, a')" "all_fixed b" "le_board (fst t) x2"
      by blast
    have "le_board x2 (fst s)" using red' by (rule reduce_puzzle_le)
    with t(3) have "le_board (fst t) (fst s)" by (rule le_board_trans)
    with t show ?thesis by blast
  qed
next
  case (2 vals box assignments)
  then show ?case by simp
next
  case (3 vals box v vs assignments)
  have vin: "v \<in> set (vals box)" and rest: "set vs \<subseteq> set (vals box)"
    using "3.prems"(2) by simp_all
  have lec: "le_board (vals(box := [v])) vals"
    using vin by (intro le_board_upd) (simp add: subseq_singleton_left)
  from "3.prems"(1) obtain r where c: "search (vals(box := [v]), assignments) = Inr r"
    by (auto split: sum.splits)
  obtain solved y where r: "r = (solved, y)" by (cases r)
  show ?case
  proof (cases "truthy solved")
    case True
    with "3.prems"(1) c r have "search (vals(box := [v]), assignments) = Inr (Solved b, a')"
      by simp
    then obtain t where t: "reduce_puzzle t = Inr (Some b, a')" "all_fixed b"
      "le_board (fst t) (fst (vals(box := [v]), assignments))"
      using "3.IH"(1) by blast
    from t(3) lec have "le_board (fst t) vals" using le_board_trans by simp
    with t show ?thesis by blast
  next
    case False
    with "3.prems"(1) c r have "search_branches vals box vs y = Inr (Solved b, a')" by simp
    then show ?thesis using "3.IH"(2)[OF c r[symmetric] False] rest by simp
  qed
qed

lemma all_fixed_iff: "all_fixed v \<longleftrightarrow> (\<forall>b \<in> set boxes. length (v b) = 1)"
  by (simp add: all_fixed_def list_all_iff)

lemma card_digits: "card (set digits) = 9"
  by (simp add: digits_def)

lemma solved_boardI:
  assumes fixed: "all_fixed b" and can: "\<forall>x. canonical (b x)"
    and stable: "\<And>x c. x \<in> set boxes \<Longrightarrow> b x = [c] \<Longrightarrow> no_peer_has b x c"
  shows "solved_board b"
proof -
  have single: "\<exists>d \<in> set digits. b x = [d]" if "x \<in> set boxes" for x
  proof -
    from fixed that have "length (b x) = 1" by (simp add: all_fixed_iff)
    then obtain d where d: "b x = [d]" by (cases "b x") auto
    moreover have "set (b x) \<subseteq> set digits" using can by (simp add: canonical_def)
    ultimately show ?thesis by simp
  qed
  have units: "\<exists>!x. x \<in> set unit \<and> b x = [d]" if u: "unit \<in> set unitlist" and d: "d \<in> set digits"
    for unit d
  proof -
    from u units_shape have shape: "length unit = 9" "distinct unit" "set unit \<subseteq> set boxes"
      by blast+
    have inj: "inj_on b (set unit)"
    proof (rule inj_onI)
      fix x y assume x: "x \<in> set unit" and y: "y \<in> set unit" and e: "b x = b y"
      show "x = y"
      proof (rule ccontr)
        assume ne: "x \<noteq> y"
        from x shape(3) obtain c where c: "b x = [c]" using single by blast
        have "y \<in> peers x" using ne x y u by (auto simp: peers_iff)
        moreover have "no_peer_has b x c" using x shape(3) c by (intro stable) auto
        ultimately have "c \<notin> set (b y)" by (simp add: no_peer_has_def)
        moreover have "b y = [c]" using e c by simp
        ultimately show False by simp
      qed
    qed
    have sub: "b ` set unit \<subseteq> (\<lambda>d. [d]) ` set digits"
    proof
      fix s assume "s \<in> b ` set unit"
      then obtain x where "x \<in> set unit" "s = b x" by blast
      with shape(3) single show "s \<in> (\<lambda>d. [d]) ` set digits" by blast
    qed
    have "card (b ` set unit) = 9"
      using inj shape(1,2) by (simp add: card_image distinct_card)
    moreover have "card ((\<lambda>d. [d]) ` set digits) = 9"
    proof -
      have "inj_on (\<lambda>d. [d]) (set digits)" by (simp add: inj_on_def)
      then show ?thesis by (simp add: card_image card_digits)
    qed
    ultimately have "b ` set unit = (\<lambda>d. [d]) ` set digits"
      using sub by (intro card_subset_eq) simp_all
    with d have "[d] \<in> b ` set unit" by blast
    then obtain x where x: "x \<in> set unit" "b x = [d]" by auto
    show ?thesis
    proof (rule ex1I[of _ x])
      show "x \<in> set unit \<and> b x = [d]" using x by simp
    next
      fix y assume y: "y \<in> set unit \<and> b y = [d]"
      then have "b y = b x" using x by simp
      with inj show "y = x" using x y by (simp add: inj_on_def)
    qed
  qed
  show ?thesis unfolding solved_board_def using single units by blast
qed

lemma search_solved_board:
  assumes s: "search s = Inr (Solved b, a')" and can: "\<forall>x. canonical (fst s x)"
  shows "solved_board b \<and> le_board b (fst s)"
proof -
  from search_Solved(1)[OF s] obtain t where
    t: "reduce_puzzle t = Inr (Some b, a')" "all_fixed b" "le_board (fst t) (fst s)"
    by blast
  have le: "le_board b (fst s)" using reduce_puzzle_le[OF t(1)] t(3) by (rule le_board_trans)
  then have "\<forall>x. canonical (b x)" using can le_board_canonical by blast
  with t(2) have "solved_board b"
    by (rule solved_boardI) (rule reduce_puzzle_stable[OF t(1)])
  with le show ?thesis by simp
qed

text \<open>
  C1. If \<^verbatim>\<open>solve\<close> returns a board for a grid string, then each of the 81 boxes of that board
  holds exactly one digit, and each of the 29 units has each of the digits 1 to 9 in
  exactly one of its boxes.
\<close>

theorem solve_returns_solved_board:
  assumes "solve grid a = Inr (Solved b, a')"
  shows "(\<forall>box \<in> set boxes. \<exists>d \<in> set digits. b box = [d]) \<and>
         (\<forall>unit \<in> set unitlist. \<forall>d \<in> set digits. \<exists>!box. box \<in> set unit \<and> b box = [d]) \<and>
         length boxes = 81 \<and> length unitlist = 29"
proof -
  from assms obtain v0 where g: "grid_values grid = Inr v0"
    by (auto simp: solve_def split: sum.splits)
  from assms g obtain r where sr: "search (v0, a) = Inr r"
    by (auto simp: solve_def split: sum.splits)
  obtain solved y where r: "r = (solved, y)" by (cases r)
  from assms g sr r have "search (v0, a) = Inr (Solved b, a')"
    by (auto simp: solve_def split: if_splits)
  moreover have "\<forall>x. canonical (fst (v0, a) x)" using grid_values_canonical[OF g] by simp
  ultimately have "solved_board b" using search_solved_board by blast
  then show ?thesis by (simp add: solved_board_def length_boxes length_unitlist)
qed

subsection \<open>Puzzles without a solution\<close>

lemma reduce_puzzle_no_error: "reduce_puzzle s \<noteq> Inl e"
proof (induction s rule: reduce_puzzle.induct)
  case (1 s)
  obtain s' where p: "naked_twins (only_choice (eliminate s)) = Inr s'"
    using naked_twins_total by blast
  show ?case
  proof (cases "n_empty (fst s') \<noteq> 0")
    case True
    with p show ?thesis by (subst reduce_puzzle.simps) simp
  next
    case ne: False
    show ?thesis
    proof (cases "n_solved (fst s') = n_solved (fst s)")
      case True
      with p ne show ?thesis by (subst reduce_puzzle.simps) simp
    next
      case False
      have "reduce_puzzle s' \<noteq> Inl e" using "1.IH"[OF p ne False] .
      with p ne False show ?thesis by (subst reduce_puzzle.simps) simp
    qed
  qed
qed

lemma min_box_no_error:
  assumes "n_empty v = 0" "\<not> all_fixed v"
  shows "min_box v \<noteq> Inl e"
proof -
  from assms(2) obtain x where x: "x \<in> set boxes" "length (v x) \<noteq> 1"
    by (auto simp: all_fixed_iff)
  moreover have "v x \<noteq> []" using assms(1) x(1) by (simp add: n_empty_zero_iff)
  ultimately have "1 < length (v x)" by (cases "v x") auto
  with x(1) have "x \<in> set (filter (\<lambda>b. 1 < length (v b)) boxes)" by simp
  then have "filter (\<lambda>b. 1 < length (v b)) boxes \<noteq> []" by (metis empty_iff empty_set)
  then show ?thesis by (auto simp: min_box_def split: list.splits)
qed

lemma search_no_error:
  shows "\<exists>r. search s = Inr r"
    and "\<exists>r. search_branches vals box vs a = Inr r"
proof (induction s and vals box vs a rule: search_search_branches.induct)
  case (1 s)
  obtain r where red: "reduce_puzzle s = Inr r"
    using reduce_puzzle_no_error[of s] by (cases "reduce_puzzle s") auto
  obtain ov y where r: "r = (ov, y)" by (cases r)
  show ?case
  proof (cases ov)
    case None
    with red r show ?thesis by (subst search.simps) simp
  next
    case (Some x2)
    note red' = red[unfolded r Some]
    show ?thesis
    proof (cases "all_fixed x2")
      case True
      with red' show ?thesis by (subst search.simps) simp
    next
      case False
      have "n_empty x2 = 0" using red' by (rule reduce_puzzle_Some_n_empty)
      then obtain nb where mb: "min_box x2 = Inr nb"
        using min_box_no_error[OF _ False] by (cases "min_box x2") auto
      obtain n bx where nb: "nb = (n, bx)" by (cases nb)
      have "\<exists>r. search_branches x2 bx (x2 bx) y = Inr r"
        using "1.IH"[OF red r[symmetric] Some False mb nb[symmetric]] .
      with red' False mb nb show ?thesis by (subst search.simps) simp
    qed
  qed
next
  case (2 vals box assignments)
  then show ?case by simp
next
  case (3 vals box v vs assignments)
  obtain r where c: "search (vals(box := [v]), assignments) = Inr r"
    using "3.IH"(1) by blast
  obtain solved y where r: "r = (solved, y)" by (cases r)
  show ?case
  proof (cases "truthy solved")
    case True
    with c r show ?thesis by simp
  next
    case False
    have "\<exists>r. search_branches vals box vs y = Inr r" using "3.IH"(2)[OF c r[symmetric] False] .
    with c r False show ?thesis by simp
  qed
qed

text \<open>
  \<open>solution_of grid b\<close>: the board \<open>b\<close> is a solved board that has every given digit of the
  grid in its box.
\<close>

definition solution_of :: "string \<Rightarrow> board \<Rightarrow> bool" where
  "solution_of grid b =
     (solved_board b \<and> (\<forall>i<81. grid ! i \<noteq> CHR ''.'' \<longrightarrow> b (boxes ! i) = [grid ! i]))"

lemma grid_values_valid:
  assumes "length grid = 81" "list_all (\<lambda>c. c \<in> set (digits @ ''.'')) grid"
  shows "\<exists>v0. grid_values grid = Inr v0 \<and>
           (\<forall>i<81. v0 (boxes ! i) = (if grid ! i = CHR ''.'' then digits else [grid ! i]))"
proof -
  let ?numbers = "map (\<lambda>c. if c = CHR ''.'' then digits else [c]) grid"
  let ?v0 = "\<lambda>box. case map_of (zip boxes ?numbers) box of Some v \<Rightarrow> v | None \<Rightarrow> []"
  have g: "grid_values grid = Inr ?v0" using assms by (simp add: grid_values_def)
  have "?v0 (boxes ! i) = (if grid ! i = CHR ''.'' then digits else [grid ! i])" if "i < 81" for i
  proof -
    have "map_of (zip boxes ?numbers) (boxes ! i) = Some (?numbers ! i)"
      using that assms(1) by (intro map_of_zip_nth) (simp_all add: length_boxes distinct_boxes)
    then show ?thesis using that assms(1) by simp
  qed
  with g show ?thesis by blast
qed

lemma solve_valid_grid:
  assumes "length grid = 81" "list_all (\<lambda>c. c \<in> set (digits @ ''.'')) grid"
  shows "\<exists>r a'. solve grid a = Inr (r, a') \<and>
           (r = PyFalse \<or> (\<exists>b. r = Solved b \<and> solution_of grid b))"
proof -
  from grid_values_valid[OF assms] obtain v0 where g: "grid_values grid = Inr v0"
    and giv: "\<forall>i<81. v0 (boxes ! i) = (if grid ! i = CHR ''.'' then digits else [grid ! i])"
    by blast
  obtain r where sr: "search (v0, a) = Inr r"
    using search_no_error(1)[of "(v0, a)"] by blast
  obtain solved a' where r: "r = (solved, a')" by (cases r)
  show ?thesis
  proof (cases solved)
    case PyFalse
    with g sr r show ?thesis by (simp add: solve_def)
  next
    case PyNone
    with g sr r show ?thesis by (simp add: solve_def)
  next
    case (Solved b)
    have can: "\<forall>x. canonical (fst (v0, a) x)" using grid_values_canonical[OF g] by simp
    from sr r Solved have "search (v0, a) = Inr (Solved b, a')" by simp
    then have sb: "solved_board b" and le: "le_board b v0"
      using search_solved_board[OF _ can] by simp_all
    have "b (boxes ! i) = [grid ! i]" if i: "i < 81" and ne: "grid ! i \<noteq> CHR ''.''" for i
    proof -
      have "boxes ! i \<in> set boxes" using i by (simp add: length_boxes)
      then obtain d where "b (boxes ! i) = [d]" using sb by (auto simp: solved_board_def)
      moreover have "v0 (boxes ! i) = [grid ! i]" using giv i ne by simp
      ultimately show ?thesis using le le_board_single[of b v0 "boxes ! i" d] by simp
    qed
    with sb have "solution_of grid b" by (simp add: solution_of_def)
    with g sr r Solved show ?thesis by (simp add: solve_def)
  qed
qed

text \<open>
  C8. For a grid of 81 characters from \<^verbatim>\<open>'123456789.'\<close>, \<^verbatim>\<open>solve\<close> raises nothing and returns
  either \<^verbatim>\<open>False\<close> or a solved board that has the given digits in their boxes. So it
  returns \<^verbatim>\<open>False\<close> when the puzzle has no solution, and also whenever \<^verbatim>\<open>search\<close> comes back
  from the root without a board (with \<^verbatim>\<open>False\<close> or with \<^verbatim>\<open>None\<close>); \<^verbatim>\<open>False\<close> is not a board.
\<close>

theorem solve_unsolvable_returns_False:
  assumes "length grid = 81" and "list_all (\<lambda>c. c \<in> set (digits @ ''.'')) grid"
  shows "(\<exists>r a'. solve grid a = Inr (r, a') \<and>
            (r = PyFalse \<or> (\<exists>b. r = Solved b \<and> solution_of grid b))) \<and>
         ((\<nexists>b. solution_of grid b) \<longrightarrow> (\<exists>a'. solve grid a = Inr (PyFalse, a'))) \<and>
         (\<forall>v0 r a'. grid_values grid = Inr v0 \<and> search (v0, a) = Inr (r, a') \<and> \<not> truthy r \<longrightarrow>
            solve grid a = Inr (PyFalse, a')) \<and>
         (\<forall>b. PyFalse \<noteq> Solved b)"
proof (intro conjI impI allI)
  show t: "\<exists>r a'. solve grid a = Inr (r, a') \<and>
            (r = PyFalse \<or> (\<exists>b. r = Solved b \<and> solution_of grid b))"
    using assms by (rule solve_valid_grid)
  assume "\<nexists>b. solution_of grid b"
  with t show "\<exists>a'. solve grid a = Inr (PyFalse, a')" by blast
next
  fix v0 r a'
  assume "grid_values grid = Inr v0 \<and> search (v0, a) = Inr (r, a') \<and> \<not> truthy r"
  then show "solve grid a = Inr (PyFalse, a')" by (simp add: solve_def)
next
  fix b show "PyFalse \<noteq> Solved b" by simp
qed

definition two_fives_grid :: string where
  "two_fives_grid =
     ''55...............................................................................''"

theorem solve_unsolvable_returns_False_witness:
  "length two_fives_grid = 81 \<and>
   list_all (\<lambda>c. c \<in> set (digits @ ''.'')) two_fives_grid \<and>
   (\<nexists>b. solution_of two_fives_grid b) \<and>
   (\<exists>a'. solve two_fives_grid [] = Inr (PyFalse, a'))"
proof -
  have l: "length two_fives_grid = 81" by (simp add: two_fives_grid_def)
  have ok: "list_all (\<lambda>c. c \<in> set (digits @ ''.'')) two_fives_grid"
    by (simp add: two_fives_grid_def digits_def)
  have none: "\<nexists>b. solution_of two_fives_grid b"
  proof
    assume "\<exists>b. solution_of two_fives_grid b"
    then obtain b where b: "solution_of two_fives_grid b" by blast
    have g: "two_fives_grid ! 0 = CHR ''5''" "two_fives_grid ! 1 = CHR ''5''"
      by (simp_all add: two_fives_grid_def)
    have bx: "boxes ! 0 = ''A1''" "boxes ! 1 = ''A2''" by (simp_all add: boxes_eval)
    from b have giv: "\<forall>i<81. two_fives_grid ! i \<noteq> CHR ''.'' \<longrightarrow>
        b (boxes ! i) = [two_fives_grid ! i]"
      by (simp add: solution_of_def)
    have v: "b ''A1'' = ''5''" "b ''A2'' = ''5''"
      using giv[rule_format, of 0] giv[rule_format, of 1] g bx by simp_all
    let ?row = "[''A1'', ''A2'', ''A3'', ''A4'', ''A5'', ''A6'', ''A7'', ''A8'', ''A9'']"
    have "?row \<in> set unitlist" by (simp add: unitlist_eval)
    moreover have "CHR ''5'' \<in> set digits" by (simp add: digits_def)
    ultimately have "\<exists>!box. box \<in> set ?row \<and> b box = ''5''"
      using b unfolding solution_of_def solved_board_def by blast
    moreover have "''A1'' \<in> set ?row \<and> b ''A1'' = ''5''" "''A2'' \<in> set ?row \<and> b ''A2'' = ''5''"
      using v by simp_all
    ultimately have "''A1'' = ''A2''" by blast
    then show False by simp
  qed
  from solve_unsolvable_returns_False[OF l ok, of "[]"] none
  have "\<exists>a'. solve two_fives_grid [] = Inr (PyFalse, a')" by blast
  with l ok none show ?thesis by blast
qed

end
